theory Spec2Isabelle
  imports Main
begin

section \<open>Tweets (tweet-utils.ts)\<close>

text \<open>
  Fields typed \<open>any\<close> in the source that the code only copies (\<open>public_metrics\<close>,
  \<open>entities\<close>, \<open>attachments\<close>) are JSON values. A JavaScript string is a \<open>string\<close> of
  code units; an optional field (\<open>f?: T\<close>) is an \<open>option\<close>.
\<close>

datatype json = JNull | JBool bool | JNum int | JStr string | JArr "json list"
  | JObj "(string \<times> json) list"

record OriginalTweet =
  ot_id :: string
  ot_text :: string
  ot_author_id :: string
  ot_author_username :: string

datatype tweet_type = Original | LongForm | Thread | Reply | Quote

record TweetRef =
  ref_type :: string
  ref_id :: string

record NoteTweet =
  note_text :: string
  note_entities :: json

record RawTweet =
  tweet_id :: string
  tweet_text :: string
  created_at :: "string option"
  author_id :: "string option"
  in_reply_to_user_id :: "string option"
  public_metrics :: "json option"
  entities :: "json option"
  referenced_tweets :: "TweetRef list option"
  note_tweet :: "NoteTweet option"
  conversation_id :: "string option"
  attachments :: "json option"

record EnrichedTweet = RawTweet +
  full_text :: string
  tweet_type :: tweet_type
  original_tweet :: "OriginalTweet option"
  thread_position :: "nat option"
  author_name :: "string option"
  author_username :: "string option"

record User =
  u_id :: string
  u_username :: string
  u_name :: string
  u_followers_count :: "nat option"

text \<open>JavaScript \<open>a || b\<close> on strings: the empty string is falsy.\<close>

definition or_str :: "string \<Rightarrow> string \<Rightarrow> string" where
  "or_str a b = (if a \<noteq> [] then a else b)"

text \<open>\<open>x ?? ""\<close> and \<open>x || ""\<close> on an optional string.\<close>

definition str_or_empty :: "string option \<Rightarrow> string" where
  "str_or_empty x = (case x of None \<Rightarrow> [] | Some s \<Rightarrow> s)"

text \<open>Truthiness of an optional string: defined and not empty.\<close>

definition truthy :: "string option \<Rightarrow> bool" where
  "truthy x = (case x of None \<Rightarrow> False | Some s \<Rightarrow> s \<noteq> [])"

text \<open>\<open>buildIncludesMaps\<close>: \<open>Map.set\<close> in array order, a later entry replaces an earlier one.\<close>

definition buildTweetsMap :: "RawTweet list option \<Rightarrow> (string \<rightharpoonup> RawTweet)" where
  "buildTweetsMap inc =
     (case inc of None \<Rightarrow> Map.empty
      | Some ts \<Rightarrow> fold (\<lambda>t m. m(tweet_id t \<mapsto> t)) ts Map.empty)"

definition buildUsersMap :: "User list option \<Rightarrow> (string \<rightharpoonup> User)" where
  "buildUsersMap inc =
     (case inc of None \<Rightarrow> Map.empty
      | Some us \<Rightarrow> fold (\<lambda>u m. m(u_id u \<mapsto> u)) us Map.empty)"

text \<open>\<open>parentTweet?.note_tweet?.text || parentTweet?.text || ""\<close>, cut to 2000 code units.\<close>

definition excerpt :: "RawTweet option \<Rightarrow> string" where
  "excerpt p =
     take 2000
       (case p of None \<Rightarrow> []
        | Some t \<Rightarrow>
            or_str (case note_tweet t of None \<Rightarrow> [] | Some n \<Rightarrow> note_text n) (tweet_text t))"

definition username_of :: "User option \<Rightarrow> string" where
  "username_of u = (case u of None \<Rightarrow> [] | Some x \<Rightarrow> u_username x)"

text \<open>\<open>parentTweet?.author_id\<close>.\<close>

definition author_of :: "RawTweet option \<Rightarrow> string option" where
  "author_of p = (case p of None \<Rightarrow> None | Some t \<Rightarrow> author_id t)"

text \<open>
  \<open>classifyTweet\<close>. \<open>refs.find\<close> returns the first reference of the given type;
  \<open>List.find\<close> does the same. The result is the input tweet with \<open>full_text\<close>,
  \<open>tweet_type\<close> and \<open>original_tweet\<close> added; a raw tweet of the API carries none of the
  other derived fields.
\<close>

definition classifyTweet ::
  "RawTweet \<Rightarrow> string \<Rightarrow> (string \<rightharpoonup> RawTweet) \<Rightarrow> (string \<rightharpoonup> User) \<Rightarrow> EnrichedTweet"
where
  "classifyTweet tweet authorId includesTweetsMap includesUsersMap =
    (let fullText =
           or_str (case note_tweet tweet of None \<Rightarrow> [] | Some n \<Rightarrow> note_text n) (tweet_text tweet);
         refs = (case referenced_tweets tweet of None \<Rightarrow> [] | Some rs \<Rightarrow> rs);
         repliedTo = List.find (\<lambda>r. ref_type r = ''replied_to'') refs;
         quoted = List.find (\<lambda>r. ref_type r = ''quoted'') refs;
         (tweetType, originalTweet) =
           (case repliedTo of
              Some r \<Rightarrow>
                (let replyToUserId = in_reply_to_user_id tweet;
                     parentTweet = includesTweetsMap (ref_id r);
                     isSelfReply =
                       (if truthy replyToUserId then replyToUserId = Some authorId
                        else author_of parentTweet = Some authorId);
                     parentAuthorId =
                       or_str (str_or_empty replyToUserId)
                         (str_or_empty (author_of parentTweet));
                     parentAuthor = includesUsersMap parentAuthorId
                 in (if isSelfReply then Thread else Reply,
                     Some \<lparr>ot_id = ref_id r, ot_text = excerpt parentTweet,
                           ot_author_id = parentAuthorId,
                           ot_author_username = username_of parentAuthor\<rparr>))
            | None \<Rightarrow>
                (case quoted of
                   Some q \<Rightarrow>
                     (let quotedTweet = includesTweetsMap (ref_id q);
                          quotedAuthorId = str_or_empty (author_of quotedTweet);
                          quotedAuthor = includesUsersMap quotedAuthorId
                      in (Quote,
                          Some \<lparr>ot_id = ref_id q, ot_text = excerpt quotedTweet,
                                ot_author_id = quotedAuthorId,
                                ot_author_username = username_of quotedAuthor\<rparr>))
                 | None \<Rightarrow>
                     (if note_tweet tweet \<noteq> None then (LongForm, None)
                      else (Original, None))))
     in \<lparr>tweet_id = tweet_id tweet, tweet_text = tweet_text tweet, created_at = created_at tweet,
         author_id = author_id tweet, in_reply_to_user_id = in_reply_to_user_id tweet,
         public_metrics = public_metrics tweet, entities = entities tweet,
         referenced_tweets = referenced_tweets tweet, note_tweet = note_tweet tweet,
         conversation_id = conversation_id tweet, attachments = attachments tweet,
         full_text = fullText, tweet_type = tweetType, original_tweet = originalTweet,
         thread_position = None, author_name = None, author_username = None\<rparr>)"

section \<open>Sorting with a comparator\<close>

text \<open>
  \<open>String.prototype.localeCompare\<close>, as the comparison of the code units from the left
  (negative, zero or positive). The strings compared are the \<open>created_at\<close> timestamps of
  the API, all of the one ISO-8601 layout \<open>YYYY-MM-DDTHH:MM:SS.mmmZ\<close>, on which the
  collation of the runtime and this comparison agree.
\<close>

fun localeCompare :: "string \<Rightarrow> string \<Rightarrow> int" where
  "localeCompare [] [] = 0"
| "localeCompare [] (y # ys) = - 1"
| "localeCompare (x # xs) [] = 1"
| "localeCompare (x # xs) (y # ys) =
     (if (of_char x :: nat) < of_char y then - 1
      else if (of_char y :: nat) < of_char x then 1
      else localeCompare xs ys)"

text \<open>
  \<open>Array.prototype.sort(cmp)\<close> is a stable sort: \<open>x\<close> stays before every later element
  that does not compare below it. Insertion from the right gives that order.
\<close>

fun insort_cmp :: "('a \<Rightarrow> 'a \<Rightarrow> int) \<Rightarrow> 'a \<Rightarrow> 'a list \<Rightarrow> 'a list" where
  "insort_cmp cmp x [] = [x]"
| "insort_cmp cmp x (y # ys) =
     (if cmp x y \<le> 0 then x # y # ys else y # insort_cmp cmp x ys)"

definition sort_cmp :: "('a \<Rightarrow> 'a \<Rightarrow> int) \<Rightarrow> 'a list \<Rightarrow> 'a list" where
  "sort_cmp cmp xs = foldr (insort_cmp cmp) xs []"

section \<open>Thread positions (assignThreadPositions)\<close>

text \<open>
  The function mutates the objects of the array in place. The array is a list, an object
  is named by its index (the callers pass arrays of pairwise different objects), and the
  mutated array is returned. \<open>threads\<close> is a \<open>Map\<close> from conversation id to the members
  in insertion order, an association list here.
\<close>

type_synonym threads_map = "(string \<times> nat list) list"

fun push_member :: "string \<Rightarrow> nat \<Rightarrow> threads_map \<Rightarrow> threads_map" where
  "push_member c i [] = [(c, [i])]"
| "push_member c i ((k, g) # m) =
     (if k = c then (k, g @ [i]) # m else (k, g) # push_member c i m)"

text \<open>The first loop: \<open>if (!t.conversation_id) continue\<close>, else push into the group.\<close>

definition group_step :: "nat \<times> EnrichedTweet \<Rightarrow> threads_map \<Rightarrow> threads_map" where
  "group_step p m =
     (case conversation_id (snd p) of
        None \<Rightarrow> m
      | Some c \<Rightarrow> if c = [] then m else push_member c (fst p) m)"

definition build_threads :: "EnrichedTweet list \<Rightarrow> threads_map" where
  "build_threads tweets = fold group_step (enumerate 0 tweets) []"

definition by_created :: "EnrichedTweet list \<Rightarrow> nat \<Rightarrow> nat \<Rightarrow> int" where
  "by_created store a b =
     localeCompare (str_or_empty (created_at (store ! a)))
       (str_or_empty (created_at (store ! b)))"

text \<open>The inner loop \<open>threadTweets[i].thread_position = i + 1\<close>, from \<open>i\<close> on.\<close>

fun assign_positions :: "nat list \<Rightarrow> nat \<Rightarrow> EnrichedTweet list \<Rightarrow> EnrichedTweet list" where
  "assign_positions [] i store = store"
| "assign_positions (r # rs) i store =
     assign_positions rs (i + 1)
       (store[r := (store ! r)\<lparr>thread_position := Some (i + 1)\<rparr>])"

definition assign_group :: "nat list \<Rightarrow> EnrichedTweet list \<Rightarrow> EnrichedTweet list" where
  "assign_group threadTweets store =
     (if length threadTweets \<le> 1 then store
      else assign_positions (sort_cmp (by_created store) threadTweets) 0 store)"

definition assignThreadPositions :: "EnrichedTweet list \<Rightarrow> EnrichedTweet list" where
  "assignThreadPositions tweets =
     fold assign_group (map snd (build_threads tweets)) tweets"

section \<open>Vocabulary of the statements about classification and thread positions\<close>

text \<open>A tweet carries a reference of the given type.\<close>

definition has_ref :: "string \<Rightarrow> RawTweet \<Rightarrow> bool" where
  "has_ref ty tweet =
     (case referenced_tweets tweet of None \<Rightarrow> False | Some rs \<Rightarrow> \<exists>r\<in>set rs. ref_type r = ty)"

text \<open>The value of \<open>isSelfReply\<close> in \<open>classifyTweet\<close>, for a tweet with a reply reference.\<close>

definition is_self_reply :: "RawTweet \<Rightarrow> string \<Rightarrow> (string \<rightharpoonup> RawTweet) \<Rightarrow> bool" where
  "is_self_reply tweet authorId tm =
     (case List.find (\<lambda>r. ref_type r = ''replied_to'')
             (case referenced_tweets tweet of None \<Rightarrow> [] | Some rs \<Rightarrow> rs) of
        None \<Rightarrow> False
      | Some r \<Rightarrow>
          if truthy (in_reply_to_user_id tweet) then in_reply_to_user_id tweet = Some authorId
          else author_of (tm (ref_id r)) = Some authorId)"

text \<open>
  The conversation of a tweet as the guard \<open>!t.conversation_id\<close> sees it: an absent or
  empty \<open>conversation_id\<close> is no conversation.
\<close>

definition conv_key :: "EnrichedTweet \<Rightarrow> string option" where
  "conv_key t =
     (case conversation_id t of None \<Rightarrow> None | Some c \<Rightarrow> if c = [] then None else Some c)"

text \<open>The members (indices, in array order) of the conversation \<open>c\<close>.\<close>

definition group_of :: "EnrichedTweet list \<Rightarrow> string \<Rightarrow> nat list" where
  "group_of tweets c = filter (\<lambda>j. conv_key (tweets ! j) = Some c) [0..<length tweets]"

definition sorted_group :: "EnrichedTweet list \<Rightarrow> string \<Rightarrow> nat list" where
  "sorted_group tweets c = sort_cmp (by_created tweets) (group_of tweets c)"

definition members :: "(nat \<times> EnrichedTweet) list \<Rightarrow> string \<Rightarrow> nat list" where
  "members ps c = map fst (filter (\<lambda>p. conv_key (snd p) = Some c) ps)"

text \<open>\<open>b\<close> is \<open>a\<close> up to the \<open>thread_position\<close> of each element.\<close>

definition frame :: "EnrichedTweet list \<Rightarrow> EnrichedTweet list \<Rightarrow> bool" where
  "frame a b \<longleftrightarrow> length b = length a \<and>
     (\<forall>i<length a. \<exists>p. b ! i = (a ! i)\<lparr>thread_position := p\<rparr>)"

definition position :: "EnrichedTweet list \<Rightarrow> nat \<Rightarrow> nat option" where
  "position out i = thread_position (out ! i)"

text \<open>A comparator that orders: total and transitive.\<close>

definition cmp_ok :: "('a \<Rightarrow> 'a \<Rightarrow> int) \<Rightarrow> bool" where
  "cmp_ok cmp \<longleftrightarrow> (\<forall>x y. cmp x y \<le> 0 \<or> cmp y x \<le> 0) \<and>
     (\<forall>x y z. cmp x y \<le> 0 \<longrightarrow> cmp y z \<le> 0 \<longrightarrow> cmp x z \<le> 0)"

subsection \<open>Example data\<close>

definition both_refs_tweet :: RawTweet where
  "both_refs_tweet =
     \<lparr>tweet_id = ''3'', tweet_text = ''hi'', created_at = Some ''2026-01-01T00:00:00.000Z'',
      author_id = Some ''7'', in_reply_to_user_id = Some ''7'', public_metrics = None,
      entities = None,
      referenced_tweets = Some [\<lparr>ref_type = ''quoted'', ref_id = ''1''\<rparr>,
                                \<lparr>ref_type = ''replied_to'', ref_id = ''2''\<rparr>],
      note_tweet = None, conversation_id = Some ''2'', attachments = None\<rparr>"

definition mk_tweet ::
  "string \<Rightarrow> string option \<Rightarrow> string option \<Rightarrow> nat option \<Rightarrow> EnrichedTweet" where
  "mk_tweet i created conv pos =
     \<lparr>tweet_id = i, tweet_text = ''t'', created_at = created, author_id = Some ''42'',
      in_reply_to_user_id = None, public_metrics = None, entities = None,
      referenced_tweets = None, note_tweet = None, conversation_id = conv, attachments = None,
      full_text = ''t'', tweet_type = Original, original_tweet = None,
      thread_position = pos, author_name = None, author_username = None\<rparr>"

definition thread_example :: "EnrichedTweet list" where
  "thread_example =
     [mk_tweet ''103'' (Some ''2026-01-01T10:00:03.000Z'') (Some ''101'') None,
      mk_tweet ''102'' (Some ''2026-01-01T10:00:02.000Z'') (Some ''350'') (Some 4),
      mk_tweet ''101'' (Some ''2026-01-01T10:00:01.000Z'') (Some ''101'') None,
      mk_tweet ''100'' (Some ''2026-01-01T10:00:00.000Z'') None (Some 2)]"

section \<open>Merging into the daily archive\<close>

text \<open>
  A JavaScript \<open>Map\<close> keeps its keys in the order of their first insertion; \<open>set\<close> on a
  key that is present replaces the value in place. \<open>Array.from(map.values())\<close> is
  \<open>map snd\<close>.
\<close>

fun map_set :: "string \<Rightarrow> 'v \<Rightarrow> (string \<times> 'v) list \<Rightarrow> (string \<times> 'v) list" where
  "map_set k v [] = [(k, v)]"
| "map_set k v ((k', v') # m) =
     (if k' = k then (k, v) # m else (k', v') # map_set k v m)"

text \<open>\<open>for (const t of ts) tweetMap.set(t.id, t)\<close>.\<close>

definition set_all :: "EnrichedTweet list \<Rightarrow> (string \<times> EnrichedTweet) list
    \<Rightarrow> (string \<times> EnrichedTweet) list" where
  "set_all ts m = fold (\<lambda>t. map_set (tweet_id t) t) ts m"

text \<open>The comparator \<open>(a, b) => (b.created_at ?? "").localeCompare(a.created_at ?? "")\<close>.\<close>

definition newest_first :: "EnrichedTweet \<Rightarrow> EnrichedTweet \<Rightarrow> int" where
  "newest_first a b =
     localeCompare (str_or_empty (created_at b)) (str_or_empty (created_at a))"

text \<open>
  The merge of fetch-following-tweets.ts (lines 121 to 131) and of the incremental
  bookmark sync (lines 136 to 143): seed the map with the existing tweets, set the
  fetched ones, sort newest first, assign thread positions.
\<close>

definition merge_tweets :: "EnrichedTweet list \<Rightarrow> EnrichedTweet list \<Rightarrow> EnrichedTweet list" where
  "merge_tweets existingTweets classifiedFetched =
     (let tweetMap = set_all classifiedFetched (set_all existingTweets []);
          mergedTweets = sort_cmp newest_first (map snd tweetMap)
      in assignThreadPositions mergedTweets)"

section \<open>The followed-accounts sync (fetch-following-tweets.ts)\<close>

record UserTweets =
  ut_user_id :: string
  ut_username :: string
  ut_name :: string
  ut_followers_count :: nat
  ut_tweets :: "EnrichedTweet list"
  latest_tweet_id :: "string option"

text \<open>The JSON of a timeline response: \<open>data\<close>, the three lists of \<open>includes\<close>, \<open>meta.next_token\<close>.\<close>

record api_json =
  data :: "RawTweet list option"
  includes_tweets :: "RawTweet list option"
  includes_users :: "User list option"
  includes_media :: "json list option"
  next_token :: "string option"

text \<open>
  What a call of \<open>apiGet\<close> that ends does to its caller: it returns the JSON, throws an
  \<open>Error\<close> with a message, or ends the process (\<open>loadConfig\<close> calls \<open>process.exit(1)\<close>
  when the config file is missing). The transport itself, with the calls that wait on a
  rate limit, is modelled further down.
\<close>

datatype api_outcome = Returned api_json | Threw string | Exited

record sync_state =
  sinceIds :: "string \<rightharpoonup> string"
  existingData :: "string \<rightharpoonup> UserTweets"
  newTweets :: nat
  newUsers :: nat
  errors :: nat
  newTweetsForNotion :: "(EnrichedTweet \<times> string) list"
  error_log :: "(nat \<times> string \<times> string) list"

text \<open>
  The objects pushed to \<open>newTweetsForNotion\<close> are the classified objects themselves. One
  that is still in the map after all \<open>set\<close> calls (the last fetched one of its id) is an
  element of the merged array and is seen with the thread position written there.
\<close>

definition shared_view :: "EnrichedTweet list \<Rightarrow> EnrichedTweet list \<Rightarrow> EnrichedTweet list" where
  "shared_view merged classifiedFetched =
     map (\<lambda>(k, t).
            if tweet_id t \<in> set (map tweet_id (drop (k + 1) classifiedFetched)) then t
            else (case List.find (\<lambda>m. tweet_id m = tweet_id t) merged of
                    Some m \<Rightarrow> m | None \<Rightarrow> t))
       (enumerate 0 classifiedFetched)"

text \<open>
  The body of the \<open>try\<close> block once \<open>apiGet\<close> has returned \<open>json\<close>; nothing after the call
  throws on typed data. \<open>sinceIds[u.id]\<close> is read as \<open>sinceId\<close> and tested for truthiness.
\<close>

definition sync_user :: "User \<Rightarrow> api_json \<Rightarrow> sync_state \<Rightarrow> sync_state" where
  "sync_user u json st =
     (let sinceId = sinceIds st (u_id u);
          fetchedTweets = (case data json of None \<Rightarrow> [] | Some ts \<Rightarrow> ts);
          tweetsMap = buildTweetsMap (includes_tweets json);
          usersMap = buildUsersMap (includes_users json);
          classifiedFetched = map (\<lambda>t. classifyTweet t (u_id u) tweetsMap usersMap) fetchedTweets;
          existingTweets =
            (case existingData st (u_id u) of None \<Rightarrow> [] | Some r \<Rightarrow> ut_tweets r);
          mergedTweets = merge_tweets existingTweets classifiedFetched;
          latestId0 = (if truthy sinceId then sinceId else None);
          latestId = (case mergedTweets of [] \<Rightarrow> latestId0 | m # _ \<Rightarrow> Some (tweet_id m))
      in st\<lparr>sinceIds := (if truthy latestId then (sinceIds st)(u_id u := latestId)
                          else sinceIds st),
            existingData := (existingData st)(u_id u \<mapsto>
               \<lparr>ut_user_id = u_id u, ut_username = u_username u, ut_name = u_name u,
                ut_followers_count = (case u_followers_count u of None \<Rightarrow> 0 | Some n \<Rightarrow> n),
                ut_tweets = mergedTweets, latest_tweet_id = latestId\<rparr>),
            newTweets := newTweets st + length fetchedTweets,
            newTweetsForNotion := newTweetsForNotion st @
               map (\<lambda>t. (t, u_username u)) (shared_view mergedTweets classifiedFetched)\<rparr>)"

text \<open>
  The loop over \<open>users\<close>, at index \<open>i\<close>; \<open>outcome i\<close> is what the call of \<open>apiGet\<close> of
  that iteration does. The \<open>catch\<close> counts the error and logs the line (index, user
  name, message). A process exit ends the run: \<open>None\<close>. The accounts of filtered.json
  have pairwise different ids; the objects read for one account are not visited again.
\<close>

fun sync_loop :: "nat \<Rightarrow> User list \<Rightarrow> (nat \<Rightarrow> api_outcome) \<Rightarrow> sync_state \<Rightarrow> sync_state option" where
  "sync_loop i [] outcome st = Some st"
| "sync_loop i (u # us) outcome st =
     (let isNewUser = \<not> truthy (sinceIds st (u_id u));
          st1 = (if isNewUser then st\<lparr>newUsers := newUsers st + 1\<rparr> else st)
      in case outcome i of
           Exited \<Rightarrow> None
         | Threw msg \<Rightarrow>
             sync_loop (i + 1) us outcome
               (st1\<lparr>errors := errors st1 + 1,
                    error_log := error_log st1 @ [(i + 1, u_username u, msg)]\<rparr>)
         | Returned json \<Rightarrow> sync_loop (i + 1) us outcome (sync_user u json st1))"

record sync_result =
  final :: sync_state
  results :: "UserTweets list"
  total_tweets :: nat

text \<open>
  \<open>fetchFollowingTweets\<close>: \<open>filtered\<close> is the user list of filtered.json (\<open>None\<close> when the
  file is missing: \<open>process.exit(1)\<close>), \<open>since0\<close> the content of since_ids.json, \<open>prev\<close>
  the \<open>results\<close> of today's file. The result holds what is written to the two files and
  the counters of the summary.
\<close>

definition fetchFollowingTweets ::
  "User list option \<Rightarrow> (string \<rightharpoonup> string) \<Rightarrow> UserTweets list \<Rightarrow> (nat \<Rightarrow> api_outcome)
     \<Rightarrow> sync_result option" where
  "fetchFollowingTweets filtered since0 prev outcome =
     (case filtered of
        None \<Rightarrow> None
      | Some users \<Rightarrow>
          (case sync_loop 0 users outcome
                  \<lparr>sinceIds = since0,
                   existingData = fold (\<lambda>r m. m(ut_user_id r \<mapsto> r)) prev Map.empty,
                   newTweets = 0, newUsers = 0, errors = 0, newTweetsForNotion = [],
                   error_log = []\<rparr> of
             None \<Rightarrow> None
           | Some st \<Rightarrow>
               (let rs = List.map_filter (\<lambda>u. existingData st (u_id u)) users
                in Some \<lparr>final = st, results = rs,
                         total_tweets = sum_list (map (\<lambda>r. length (ut_tweets r)) rs)\<rparr>)))"

section \<open>Vocabulary of the statements about the merge and the sync\<close>

text \<open>The finite map that the \<open>set\<close> calls of the merge build, as a function.\<close>

definition upd_all ::
  "EnrichedTweet list \<Rightarrow> (string \<rightharpoonup> EnrichedTweet) \<Rightarrow> (string \<rightharpoonup> EnrichedTweet)" where
  "upd_all ts f = fold (\<lambda>t f. f(tweet_id t \<mapsto> t)) ts f"

text \<open>Every entry of the map is filed under the id of its tweet.\<close>

definition keyed :: "(string \<times> EnrichedTweet) list \<Rightarrow> bool" where
  "keyed m \<longleftrightarrow> (\<forall>p\<in>set m. tweet_id (snd p) = fst p)"


text \<open>The state at the start of the loop, as \<open>fetchFollowingTweets\<close> builds it.\<close>

definition start_state :: "(string \<rightharpoonup> string) \<Rightarrow> UserTweets list \<Rightarrow> sync_state" where
  "start_state since0 prev =
     \<lparr>sinceIds = since0,
      existingData = fold (\<lambda>r m. m(ut_user_id r \<mapsto> r)) prev Map.empty,
      newTweets = 0, newUsers = 0, errors = 0, newTweetsForNotion = [], error_log = []\<rparr>"

text \<open>\<open>existingData[u.id]?.tweets || []\<close>.\<close>

definition existing_tweets :: "sync_state \<Rightarrow> string \<Rightarrow> EnrichedTweet list" where
  "existing_tweets st uid = (case existingData st uid of None \<Rightarrow> [] | Some r \<Rightarrow> ut_tweets r)"

text \<open>\<open>classifiedFetched\<close>: the tweets of a response, classified for the account.\<close>

definition classified :: "User \<Rightarrow> api_json \<Rightarrow> EnrichedTweet list" where
  "classified u json =
     map (\<lambda>t. classifyTweet t (u_id u) (buildTweetsMap (includes_tweets json))
                  (buildUsersMap (includes_users json)))
       (case data json of None \<Rightarrow> [] | Some ts \<Rightarrow> ts)"

text \<open>What the two files hold for one account: its entry of the daily file and its cursor.\<close>

definition account_view :: "sync_state \<Rightarrow> string \<Rightarrow> UserTweets option \<times> string option" where
  "account_view st uid = (existingData st uid, sinceIds st uid)"

text \<open>The lines the \<open>catch\<close> block logs during the loop from index \<open>i\<close>.\<close>

definition thrown :: "nat \<Rightarrow> User list \<Rightarrow> (nat \<Rightarrow> api_outcome) \<Rightarrow> (nat \<times> string \<times> string) list" where
  "thrown i us outcome =
     List.map_filter
       (\<lambda>(p, u). case outcome p of Threw m \<Rightarrow> Some (p + 1, u_username u, m) | _ \<Rightarrow> None)
       (enumerate i us)"

subsection \<open>Example runs\<close>

definition mk_raw :: "string \<Rightarrow> string \<Rightarrow> string \<Rightarrow> RawTweet" where
  "mk_raw i created author =
     \<lparr>tweet_id = i, tweet_text = ''t'', created_at = Some created,
      author_id = Some author, in_reply_to_user_id = None, public_metrics = None,
      entities = None, referenced_tweets = None, note_tweet = None, conversation_id = None,
      attachments = None\<rparr>"

definition mk_json :: "RawTweet list \<Rightarrow> api_json" where
  "mk_json ts = \<lparr>data = Some ts, includes_tweets = None, includes_users = None, includes_media = None,
                 next_token = None\<rparr>"

definition acct_a :: User where
  "acct_a = \<lparr>u_id = ''1'', u_username = ''ann'', u_name = ''Ann'', u_followers_count = Some 60000\<rparr>"

definition acct_b :: User where
  "acct_b = \<lparr>u_id = ''2'', u_username = ''bob'', u_name = ''Bob'', u_followers_count = None\<rparr>"

definition acct_c :: User where
  "acct_c = \<lparr>u_id = ''3'', u_username = ''cy'', u_name = ''Cy'', u_followers_count = Some 70000\<rparr>"

definition users3 :: "User list" where
  "users3 = [acct_a, acct_b, acct_c]"

definition outcome3 :: "nat \<Rightarrow> api_outcome" where
  "outcome3 i =
     (if i = 0 then Returned (mk_json [mk_raw ''101'' ''2026-01-01T10:00:00.000Z'' ''1''])
      else if i = 1 then Threw ''API error 404: Not Found''
      else Returned (mk_json [mk_raw ''301'' ''2026-01-01T11:00:00.000Z'' ''3'']))"

text \<open>
  The same three accounts on a later run: the first account has the cursor \<open>100\<close> and
  the tweet \<open>100\<close> in today's file, created in the same second as the tweet \<open>101\<close>
  that \<open>outcome3\<close> fetches for it; the third account has the cursor \<open>300\<close>.
\<close>

definition archived_a :: EnrichedTweet where
  "archived_a =
     classifyTweet (mk_raw ''100'' ''2026-01-01T10:00:00.000Z'' ''1'') ''1'' Map.empty Map.empty"

definition since3 :: "string \<rightharpoonup> string" where
  "since3 = [''1'' \<mapsto> ''100'', ''3'' \<mapsto> ''300'']"

definition prev3 :: "UserTweets list" where
  "prev3 =
     [\<lparr>ut_user_id = ''1'', ut_username = ''ann'', ut_name = ''Ann'',
       ut_followers_count = 60000, ut_tweets = [archived_a],
       latest_tweet_id = Some ''100''\<rparr>]"

definition tie_user :: User where
  "tie_user = \<lparr>u_id = ''42'', u_username = ''alice'', u_name = ''Alice'',
               u_followers_count = Some 1000\<rparr>"

definition tie_existing :: EnrichedTweet where
  "tie_existing = mk_tweet ''100'' (Some ''2026-01-01T10:00:00.000Z'') None None"

definition tie_fetched :: RawTweet where
  "tie_fetched =
     \<lparr>tweet_id = ''101'', tweet_text = ''t'', created_at = Some ''2026-01-01T10:00:00.000Z'',
      author_id = Some ''42'', in_reply_to_user_id = None, public_metrics = None,
      entities = None, referenced_tweets = None, note_tweet = None, conversation_id = None,
      attachments = None\<rparr>"

definition tie_json :: api_json where
  "tie_json = \<lparr>data = Some [tie_fetched], includes_tweets = None, includes_users = None, includes_media = None,
               next_token = None\<rparr>"

definition tie_state :: sync_state where
  "tie_state =
     \<lparr>sinceIds = [''42'' \<mapsto> ''100''],
      existingData = [''42'' \<mapsto>
         \<lparr>ut_user_id = ''42'', ut_username = ''alice'', ut_name = ''Alice'',
          ut_followers_count = 1000, ut_tweets = [tie_existing],
          latest_tweet_id = Some ''100''\<rparr>],
      newTweets = 0, newUsers = 0, errors = 0, newTweetsForNotion = [], error_log = []\<rparr>"

section \<open>The transport (api.ts)\<close>

record Config =
  client_id :: string
  client_secret :: "string option"
  access_token :: string
  refresh_token :: string
  token_expires_at :: int
  cfg_user_id :: string
  cfg_username :: string
  data_dir :: string
  redirect_uri :: "string option"
  notion :: "json option"

text \<open>
  An HTTP response: the status, the \<open>x-rate-limit-reset\<close> header (epoch seconds; \<open>None\<close>
  when the header is absent, which \<open>Number(null)\<close> reads as 0), the body as \<open>text()\<close> and
  as \<open>json()\<close> give it. \<open>fetch\<close> either resolves to a response or rejects (network
  failure, the 30 second timeout).
\<close>

record 'b http_response =
  status :: nat
  rate_limit_reset :: "int option"
  body_text :: string
  body_json :: 'b

datatype 'b fetch_result = Rejected string | Response "'b http_response"

definition ok :: "'b http_response \<Rightarrow> bool" where
  "ok r \<longleftrightarrow> 200 \<le> status r \<and> status r \<le> 299"

record token_json =
  tj_access_token :: string
  tj_refresh_token :: string
  tj_expires_in :: int

text \<open>
  The remote side: the \<open>n\<close>-th request to the API and the \<open>n\<close>-th request to the token
  endpoint each take some milliseconds and give a result, whatever was asked.
\<close>

record env =
  api_server :: "nat \<Rightarrow> nat \<times> api_json fetch_result"
  token_server :: "nat \<Rightarrow> nat \<times> token_json fetch_result"

record request =
  req_method :: string
  req_path :: string
  req_params :: "(string \<times> string) list"
  req_bearer :: string
  req_body :: "(string \<times> json) list option"

record refresh_request =
  rr_basic :: "(string \<times> string) option"
  rr_refresh_token :: string
  rr_client_id :: string

text \<open>
  The state the transport reads and writes: config.json, the clock (\<open>Date.now()\<close>, in
  milliseconds), the requests sent so far to the API and to the token endpoint, and the
  sleeps taken.
\<close>

record world =
  config_file :: "Config option"
  clock :: int
  api_calls :: "request list"
  token_calls :: "refresh_request list"
  sleeps :: "int list"

datatype api_error =
    ConfigNotFound
  | FetchRejected string
  | TokenRefreshFailed nat string
  | ApiError nat string

text \<open>
  \<open>refreshToken\<close>: one POST to the token endpoint. A response that is not ok throws
  \<open>Token refresh failed (status): body\<close>. Otherwise both tokens and the expiry are
  replaced and \<open>saveConfig\<close> writes the config before the function returns.
\<close>

definition refreshToken :: "env \<Rightarrow> Config \<Rightarrow> world \<Rightarrow> (api_error + Config) \<times> world" where
  "refreshToken e config w =
     (let rq = \<lparr>rr_basic = (if truthy (client_secret config)
                               then Some (client_id config, str_or_empty (client_secret config))
                               else None),
                 rr_refresh_token = refresh_token config, rr_client_id = client_id config\<rparr>;
          (elapsed, res) = token_server e (length (token_calls w));
          w1 = w\<lparr>token_calls := token_calls w @ [rq], clock := clock w + int elapsed\<rparr>
      in case res of
           Rejected m \<Rightarrow> (Inl (FetchRejected m), w1)
         | Response resp \<Rightarrow>
             if \<not> ok resp then (Inl (TokenRefreshFailed (status resp) (body_text resp)), w1)
             else
               (let d = body_json resp;
                    config' = config\<lparr>access_token := tj_access_token d,
                                      refresh_token := tj_refresh_token d,
                                      token_expires_at := clock w1 div 1000 + tj_expires_in d\<rparr>
                in (Inr config', w1\<lparr>config_file := Some config'\<rparr>)))"

text \<open>
  \<open>ensureValidToken\<close>: \<open>config.token_expires_at && now >= config.token_expires_at - 300\<close>;
  a number is falsy when it is 0.
\<close>

definition ensureValidToken :: "env \<Rightarrow> Config \<Rightarrow> world \<Rightarrow> (api_error + Config) \<times> world" where
  "ensureValidToken e config w =
     (let now = clock w div 1000
      in if token_expires_at config \<noteq> 0 \<and> now \<ge> token_expires_at config - 300
         then refreshToken e config w
         else (Inr config, w))"

text \<open>One \<open>fetch\<close> of the API with the given bearer token.\<close>

definition api_fetch :: "env \<Rightarrow> request \<Rightarrow> world \<Rightarrow> api_json fetch_result \<times> world" where
  "api_fetch e rq w =
     (let (elapsed, res) = api_server e (length (api_calls w))
      in (res, w\<lparr>api_calls := api_calls w @ [rq], clock := clock w + int elapsed\<rparr>))"

text \<open>
  The retry after a 401, shared by \<open>apiGet\<close> and \<open>apiPost\<close>: refresh, send the request
  again with the new token, and take the answer as final.
\<close>

definition retry_after_401 ::
  "env \<Rightarrow> Config \<Rightarrow> request \<Rightarrow> world \<Rightarrow> (api_error + api_json) \<times> world" where
  "retry_after_401 e config rq w =
     (case refreshToken e config w of
        (Inl err, w1) \<Rightarrow> (Inl err, w1)
      | (Inr config', w1) \<Rightarrow>
          (case api_fetch e (rq\<lparr>req_bearer := access_token config'\<rparr>) w1 of
             (Rejected m, w2) \<Rightarrow> (Inl (FetchRejected m), w2)
           | (Response retryResp, w2) \<Rightarrow>
               if \<not> ok retryResp
               then (Inl (ApiError (status retryResp) (body_text retryResp)), w2)
               else (Inr (body_json retryResp), w2)))"

text \<open>\<open>Math.min(Math.max(resetAt - Date.now(), 1000), 900_000)\<close>.\<close>

definition waitMs :: "int option \<Rightarrow> int \<Rightarrow> int" where
  "waitMs reset now =
     (let resetAt = (case reset of None \<Rightarrow> 0 | Some s \<Rightarrow> s) * 1000
      in min (max (resetAt - now) 1000) 900000)"

text \<open>
  \<open>apiGet\<close>. The call after a 429 is a call of \<open>apiGet\<close> itself, with no bound in the
  source: the model takes fuel, one unit for each call of the function, and \<open>None\<close> is a
  run that has not returned within the fuel. A missing config file ends the process.
\<close>

fun apiGet ::
  "nat \<Rightarrow> env \<Rightarrow> string \<Rightarrow> (string \<times> string) list \<Rightarrow> world
     \<Rightarrow> ((api_error + api_json) \<times> world) option" where
  "apiGet 0 e path params w = None"
| "apiGet (Suc fuel) e path params w =
     (case config_file w of
        None \<Rightarrow> Some (Inl ConfigNotFound, w)
      | Some config0 \<Rightarrow>
          (case ensureValidToken e config0 w of
             (Inl err, w1) \<Rightarrow> Some (Inl err, w1)
           | (Inr config, w1) \<Rightarrow>
               (let rq = \<lparr>req_method = ''GET'', req_path = path, req_params = params,
                           req_bearer = access_token config, req_body = None\<rparr>
                in case api_fetch e rq w1 of
                     (Rejected m, w2) \<Rightarrow> Some (Inl (FetchRejected m), w2)
                   | (Response resp, w2) \<Rightarrow>
                       if status resp = 429 then
                         (let wait = waitMs (rate_limit_reset resp) (clock w2)
                          in apiGet fuel e path params
                               (w2\<lparr>sleeps := sleeps w2 @ [wait], clock := clock w2 + wait\<rparr>))
                       else if status resp = 401 then Some (retry_after_401 e config rq w2)
                       else if \<not> ok resp
                       then Some (Inl (ApiError (status resp) (body_text resp)), w2)
                       else Some (Inr (body_json resp), w2))))"

text \<open>\<open>apiPost\<close>: the same without the 429 branch, so it makes no call of itself.\<close>

definition apiPost ::
  "env \<Rightarrow> string \<Rightarrow> (string \<times> json) list \<Rightarrow> world \<Rightarrow> (api_error + api_json) \<times> world" where
  "apiPost e path body w =
     (case config_file w of
        None \<Rightarrow> (Inl ConfigNotFound, w)
      | Some config0 \<Rightarrow>
          (case ensureValidToken e config0 w of
             (Inl err, w1) \<Rightarrow> (Inl err, w1)
           | (Inr config, w1) \<Rightarrow>
               (let rq = \<lparr>req_method = ''POST'', req_path = path, req_params = [],
                           req_bearer = access_token config, req_body = Some body\<rparr>
                in case api_fetch e rq w1 of
                     (Rejected m, w2) \<Rightarrow> (Inl (FetchRejected m), w2)
                   | (Response resp, w2) \<Rightarrow>
                       if status resp = 401 then retry_after_401 e config rq w2
                       else if \<not> ok resp
                       then (Inl (ApiError (status resp) (body_text resp)), w2)
                       else (Inr (body_json resp), w2))))"

section \<open>Paging (fetchAllPages) and the two bookmark syncs\<close>

text \<open>
  A failure of \<open>apiGet\<close> is not caught by the paging loops: the exception, or the exit
  of the process, ends the run.
\<close>

datatype failure = Thrown string | ProcessExit







text \<open>
  The incremental sync (sync-bookmarks-incremental.ts). \<open>scan_page\<close> is the \<open>for\<close> loop
  over one page: it stops at the tweet whose id is the stored \<open>last_id\<close> (when that is
  set) and gives the tweets before it and whether it stopped.
\<close>

fun scan_page :: "string option \<Rightarrow> RawTweet list \<Rightarrow> RawTweet list \<times> bool" where
  "scan_page last_id [] = ([], False)"
| "scan_page last_id (t # ts) =
     (if truthy last_id \<and> Some (tweet_id t) = last_id then ([], True)
      else (let (new, hit) = scan_page last_id ts in (t # new, hit)))"

record bm_loop =
  newBookmarks :: "RawTweet list"
  bmIncludesTweets :: "RawTweet list"
  bmIncludesUsers :: "User list"
  bm_page :: nat
  hitKnown :: bool
  bm_asked :: "string option list"

fun bm_pages ::
  "nat \<Rightarrow> (nat \<Rightarrow> api_outcome) \<Rightarrow> string option \<Rightarrow> string option \<Rightarrow> bm_loop
     \<Rightarrow> (failure + bm_loop) option"
where
  "bm_pages 0 outcome last_id paginationToken st = None"
| "bm_pages (Suc fuel) outcome last_id paginationToken st =
     (case outcome (bm_page st) of
        Threw m \<Rightarrow> Some (Inl (Thrown m))
      | Exited \<Rightarrow> Some (Inl ProcessExit)
      | Returned json \<Rightarrow>
          (let tweets = (case data json of None \<Rightarrow> [] | Some ts \<Rightarrow> ts);
               st1 = st\<lparr>bm_page := bm_page st + 1,
                  bm_asked := bm_asked st @ [if truthy paginationToken then paginationToken else None],
                  bmIncludesTweets := bmIncludesTweets st @
                     (case includes_tweets json of None \<Rightarrow> [] | Some xs \<Rightarrow> xs),
                  bmIncludesUsers := bmIncludesUsers st @
                     (case includes_users json of None \<Rightarrow> [] | Some xs \<Rightarrow> xs)\<rparr>
           in if tweets = [] then Some (Inr st1)
              else
                (let (new, hit) = scan_page last_id tweets;
                     st2 = st1\<lparr>newBookmarks := newBookmarks st1 @ new, hitKnown := hit\<rparr>
                 in if hit then Some (Inr st2)
                    else if truthy (next_token json)
                    then bm_pages fuel outcome last_id (next_token json) st2
                    else Some (Inr st2))))"

record bm_result =
  br_last_id :: "string option"
  br_classified :: "EnrichedTweet list"
  br_daily :: "EnrichedTweet list"
  br_latest :: "EnrichedTweet list"
  br_asked :: "string option list"

text \<open>
  \<open>syncBookmarksIncremental\<close>: \<open>last_id\<close> is the id stored in state.json, \<open>existingDaily\<close>
  and \<open>allBookmarks\<close> the arrays of today's file and of latest.json. With no new bookmark
  (\<open>newBookmarks\<close> is empty exactly when \<open>classifiedBookmarks\<close> is) only the time of the
  sync is written. Otherwise the new bookmarks are classified, the
  stored id becomes the id of the first one, and today's file gets the merged array
  with its thread positions. The classified objects are the same objects in the map of
  today's file, in the map of latest.json and in the array pushed to Notion
  (\<open>br_classified\<close>): \<open>assignThreadPositions\<close> on the merged array of today's file has
  written their thread positions before the other two read them, and it is not run on
  the array of latest.json.
\<close>

definition syncBookmarksIncremental ::
  "nat \<Rightarrow> (nat \<Rightarrow> api_outcome) \<Rightarrow> string option \<Rightarrow> EnrichedTweet list \<Rightarrow> EnrichedTweet list
     \<Rightarrow> (failure + bm_result) option" where
  "syncBookmarksIncremental fuel outcome last_id existingDaily allBookmarks =
     (case bm_pages fuel outcome last_id None
             \<lparr>newBookmarks = [], bmIncludesTweets = [], bmIncludesUsers = [], bm_page = 0,
              hitKnown = False, bm_asked = []\<rparr> of
        None \<Rightarrow> None
      | Some (Inl f) \<Rightarrow> Some (Inl f)
      | Some (Inr lp) \<Rightarrow>
          (let tweetsMap = buildTweetsMap (Some (bmIncludesTweets lp));
               usersMap = buildUsersMap (Some (bmIncludesUsers lp));
               classifiedBookmarks =
                 map (\<lambda>raw.
                        let authorId = str_or_empty (author_id raw);
                            classified = classifyTweet raw authorId tweetsMap usersMap
                        in case usersMap authorId of
                             None \<Rightarrow> classified
                           | Some author \<Rightarrow>
                               classified\<lparr>author_name := Some (u_name author),
                                           author_username := Some (u_username author)\<rparr>)
                   (newBookmarks lp)
           in case classifiedBookmarks of
                [] \<Rightarrow> Some (Inr \<lparr>br_last_id = last_id, br_classified = [],
                                  br_daily = existingDaily, br_latest = allBookmarks,
                                  br_asked = bm_asked lp\<rparr>)
              | first # _ \<Rightarrow>
                  (let mergedBookmarks = merge_tweets existingDaily classifiedBookmarks;
                       shared = shared_view mergedBookmarks classifiedBookmarks
                   in Some (Inr \<lparr>br_last_id = Some (tweet_id first),
                                br_classified = shared,
                                br_daily = mergedBookmarks,
                                br_latest =
                                  sort_cmp newest_first
                                    (map snd (set_all shared (set_all allBookmarks []))),
                                br_asked = bm_asked lp\<rparr>))))"

section \<open>Vocabulary of the statements about the transport\<close>

text \<open>The guard of \<open>ensureValidToken\<close>, at the clock reading \<open>now_ms\<close>.\<close>

definition needs_refresh :: "Config \<Rightarrow> int \<Rightarrow> bool" where
  "needs_refresh config now_ms \<longleftrightarrow>
     token_expires_at config \<noteq> 0 \<and> now_ms div 1000 \<ge> token_expires_at config - 300"

text \<open>The request \<open>apiGet\<close> sends, and the one \<open>apiPost\<close> sends.\<close>

definition get_request :: "string \<Rightarrow> (string \<times> string) list \<Rightarrow> string \<Rightarrow> request" where
  "get_request path params bearer =
     \<lparr>req_method = ''GET'', req_path = path, req_params = params, req_bearer = bearer,
      req_body = None\<rparr>"

definition post_request :: "string \<Rightarrow> (string \<times> json) list \<Rightarrow> string \<Rightarrow> request" where
  "post_request path body bearer =
     \<lparr>req_method = ''POST'', req_path = path, req_params = [], req_bearer = bearer,
      req_body = Some body\<rparr>"

text \<open>The request \<open>refreshToken\<close> sends for a config.\<close>

definition refresh_request_of :: "Config \<Rightarrow> refresh_request" where
  "refresh_request_of config =
     \<lparr>rr_basic = (if truthy (client_secret config)
                   then Some (client_id config, str_or_empty (client_secret config)) else None),
      rr_refresh_token = refresh_token config, rr_client_id = client_id config\<rparr>"

text \<open>The world after a request that is answered after \<open>dt\<close> milliseconds, and after a sleep.\<close>

definition sent :: "world \<Rightarrow> request \<Rightarrow> nat \<Rightarrow> world" where
  "sent w rq dt = w\<lparr>api_calls := api_calls w @ [rq], clock := clock w + int dt\<rparr>"

definition slept :: "world \<Rightarrow> int \<Rightarrow> world" where
  "slept w wait = w\<lparr>sleeps := sleeps w @ [wait], clock := clock w + wait\<rparr>"

text \<open>What a 401 leads to, for the request \<open>rq\<close> sent from the world \<open>w2\<close> and the outcome
  \<open>out\<close> of the call: one refresh request is sent; if the refresh succeeds, the request
  goes out once more with the new token and its answer is final (the JSON when ok, else
  an error with the status and body); if the refresh is refused, that error is the
  outcome and the request is not sent again.\<close>

definition retried_once ::
  "env \<Rightarrow> Config \<Rightarrow> request \<Rightarrow> world \<Rightarrow> (api_error + api_json) \<times> world \<Rightarrow> bool" where
  "retried_once e c rq w2 out \<longleftrightarrow>
     token_calls (snd out) = token_calls w2 @ [refresh_request_of c] \<and>
     (\<forall>dt2 tr. token_server e (length (token_calls w2)) = (dt2, Response tr) \<and> ok tr \<longrightarrow>
        api_calls (snd out)
          = api_calls w2 @ [rq\<lparr>req_bearer := tj_access_token (body_json tr)\<rparr>] \<and>
        (\<forall>dt3 rr. api_server e (length (api_calls w2)) = (dt3, Response rr) \<longrightarrow>
           fst out = (if ok rr then Inr (body_json rr)
                      else Inl (ApiError (status rr) (body_text rr))))) \<and>
     (\<forall>dt2 tr. token_server e (length (token_calls w2)) = (dt2, Response tr) \<and> \<not> ok tr \<longrightarrow>
        fst out = Inl (TokenRefreshFailed (status tr) (body_text tr)) \<and>
        api_calls (snd out) = api_calls w2)"

subsection \<open>Example worlds\<close>

definition cfg_fresh :: Config where
  "cfg_fresh =
     \<lparr>client_id = ''cid'', client_secret = None, access_token = '''', refresh_token = '''',
      token_expires_at = 0, cfg_user_id = '''', cfg_username = '''', data_dir = ''./data'',
      redirect_uri = None, notion = None\<rparr>"

definition cfg_old :: Config where
  "cfg_old =
     \<lparr>client_id = ''cid'', client_secret = None, access_token = ''old_a'',
      refresh_token = ''old_r'', token_expires_at = 1000, cfg_user_id = ''42'',
      cfg_username = ''me'', data_dir = ''./data'', redirect_uri = None, notion = None\<rparr>"

definition world_at :: "Config \<Rightarrow> int \<Rightarrow> world" where
  "world_at c t = \<lparr>config_file = Some c, clock = t, api_calls = [], token_calls = [], sleeps = []\<rparr>"

definition json_empty :: api_json where
  "json_empty = \<lparr>data = None, includes_tweets = None, includes_users = None,
                  includes_media = None, next_token = None\<rparr>"

definition token_ok :: "token_json http_response" where
  "token_ok = \<lparr>status = 200, rate_limit_reset = None, body_text = '''',
     body_json = \<lparr>tj_access_token = ''new_a'', tj_refresh_token = ''new_r'', tj_expires_in = 7200\<rparr>\<rparr>"

definition env_tokens_ok :: env where
  "env_tokens_ok =
     \<lparr>api_server = (\<lambda>n. (50, Response \<lparr>status = 200, rate_limit_reset = None, body_text = '''',
                                        body_json = json_empty\<rparr>)),
      token_server = (\<lambda>n. (20, Response token_ok))\<rparr>"

definition cfg_valid :: Config where
  "cfg_valid =
     \<lparr>client_id = ''cid'', client_secret = None, access_token = ''tok_a'',
      refresh_token = ''tok_r'', token_expires_at = 1700007200, cfg_user_id = ''42'',
      cfg_username = ''me'', data_dir = ''./data'', redirect_uri = None, notion = None\<rparr>"

definition resp_429 :: "api_json http_response" where
  "resp_429 = \<lparr>status = 429, rate_limit_reset = Some 1700000060, body_text = ''Too Many Requests'',
                body_json = json_empty\<rparr>"

definition resp_200 :: "api_json http_response" where
  "resp_200 = \<lparr>status = 200, rate_limit_reset = None, body_text = '''', body_json = json_empty\<rparr>"

definition resp_401 :: "api_json http_response" where
  "resp_401 = \<lparr>status = 401, rate_limit_reset = None, body_text = ''Unauthorized'',
                body_json = json_empty\<rparr>"

definition env_429 :: env where
  "env_429 = \<lparr>api_server = (\<lambda>n. if n = 0 then (100, Response resp_429) else (80, Response resp_200)),
               token_server = (\<lambda>n. (20, Response token_ok))\<rparr>"

definition env_401 :: env where
  "env_401 = \<lparr>api_server = (\<lambda>n. (30, Response resp_401)),
               token_server = (\<lambda>n. (20, Response token_ok))\<rparr>"

definition w_now :: world where
  "w_now = world_at cfg_valid 1700000000000"

subsection \<open>Example bookmark pages\<close>






section \<open>Comparator and sorting lemmas\<close>

lemma lc_antisym: "localeCompare b a = - localeCompare a b"
  by (induction a b rule: localeCompare.induct) auto

lemma lc_total: "localeCompare a b \<le> 0 \<or> localeCompare b a \<le> 0"
  using lc_antisym [of b a] by linarith

lemma lc_trans: "localeCompare a b \<le> 0 \<Longrightarrow> localeCompare b c \<le> 0 \<Longrightarrow> localeCompare a c \<le> 0"
proof (induction a b arbitrary: c rule: localeCompare.induct)
  case 1 then show ?case by simp
next
  case (2 y ys) then show ?case by (cases c) (simp_all split: if_splits)
next
  case (3 x xs) then show ?case by simp
next
  case (4 x xs y ys)
  show ?case
  proof (cases c)
    case Nil with 4 show ?thesis by (simp split: if_splits)
  next
    case (Cons z zs)
    show ?thesis
    proof (cases "(of_char x :: nat) < of_char y")
      case True
      from 4(3) Cons have "\<not> (of_char z :: nat) < of_char y" by (simp split: if_splits)
      with True have "(of_char x :: nat) < of_char z" by linarith
      then show ?thesis using Cons by simp
    next
      case False
      with 4(2) have nyx: "\<not> (of_char y :: nat) < of_char x" and r1: "localeCompare xs ys \<le> 0"
        by (simp_all split: if_splits)
      from False nyx have xy: "(of_char x :: nat) = of_char y" by linarith
      show ?thesis
      proof (cases "(of_char y :: nat) < of_char z")
        case True
        with xy have "(of_char x :: nat) < of_char z" by linarith
        then show ?thesis using Cons by simp
      next
        case F2: False
        with 4(3) Cons have nzy: "\<not> (of_char z :: nat) < of_char y"
          and r2: "localeCompare ys zs \<le> 0" by (simp_all split: if_splits)
        from 4(1)[OF False nyx r1 r2] have r3: "localeCompare xs zs \<le> 0" .
        from F2 nzy xy have "\<not> (of_char x :: nat) < of_char z" "\<not> (of_char z :: nat) < of_char x"
          by linarith+
        with r3 Cons show ?thesis by simp
      qed
    qed
  qed
qed

lemma set_insort_cmp [simp]: "set (insort_cmp cmp x ys) = insert x (set ys)"
  by (induction ys) auto

lemma length_insort_cmp [simp]: "length (insort_cmp cmp x ys) = Suc (length ys)"
  by (induction ys) auto

lemma distinct_insort_cmp: "distinct (insort_cmp cmp x ys) = (x \<notin> set ys \<and> distinct ys)"
  by (induction ys) auto

lemma set_sort_cmp [simp]: "set (sort_cmp cmp xs) = set xs"
  by (induction xs) (auto simp: sort_cmp_def)

lemma length_sort_cmp [simp]: "length (sort_cmp cmp xs) = length xs"
  by (induction xs) (auto simp: sort_cmp_def)

lemma distinct_sort_cmp [simp]: "distinct (sort_cmp cmp xs) = distinct xs"
proof (induction xs)
  case Nil show ?case by (simp add: sort_cmp_def)
next
  case (Cons x xs)
  have "sort_cmp cmp (x # xs) = insort_cmp cmp x (sort_cmp cmp xs)" by (simp add: sort_cmp_def)
  with Cons show ?case by (simp add: distinct_insort_cmp)
qed

lemma insort_cmp_cong:
  "(\<And>y. y \<in> set ys \<Longrightarrow> cmp x y = cmp' x y) \<Longrightarrow> insort_cmp cmp x ys = insort_cmp cmp' x ys"
  by (induction ys) auto

lemma sort_cmp_cong:
  "(\<And>x y. x \<in> set xs \<Longrightarrow> y \<in> set xs \<Longrightarrow> cmp x y = cmp' x y) \<Longrightarrow> sort_cmp cmp xs = sort_cmp cmp' xs"
proof (induction xs)
  case Nil show ?case by (simp add: sort_cmp_def)
next
  case (Cons x xs)
  have a: "sort_cmp cmp xs = sort_cmp cmp' xs" using Cons by simp
  have "insort_cmp cmp x (sort_cmp cmp' xs) = insort_cmp cmp' x (sort_cmp cmp' xs)"
    by (rule insort_cmp_cong) (simp add: Cons.prems)
  with a show ?case by (simp add: sort_cmp_def)
qed

lemma sorted_insort_cmp:
  "cmp_ok cmp \<Longrightarrow> sorted_wrt (\<lambda>a b. cmp a b \<le> 0) ys \<Longrightarrow> sorted_wrt (\<lambda>a b. cmp a b \<le> 0) (insort_cmp cmp x ys)"
proof (induction ys)
  case Nil show ?case by simp
next
  case (Cons y ys)
  show ?case
  proof (cases "cmp x y \<le> 0")
    case True
    have "\<forall>z\<in>set ys. cmp x z \<le> 0"
      using Cons.prems True unfolding cmp_ok_def by (metis sorted_wrt.simps(2))
    with True Cons.prems show ?thesis by simp
  next
    case False
    then have "cmp y x \<le> 0" using Cons.prems(1) unfolding cmp_ok_def by metis
    with False Cons show ?thesis by auto
  qed
qed

lemma sorted_sort_cmp:
  "cmp_ok cmp \<Longrightarrow> sorted_wrt (\<lambda>a b. cmp a b \<le> 0) (sort_cmp cmp xs)"
proof (induction xs)
  case Nil show ?case by (simp add: sort_cmp_def)
next
  case (Cons x xs)
  have "sort_cmp cmp (x # xs) = insort_cmp cmp x (sort_cmp cmp xs)" by (simp add: sort_cmp_def)
  with Cons show ?case by (simp add: sorted_insort_cmp)
qed

lemma sort_cmp_sorted_id:
  "sorted_wrt (\<lambda>a b. cmp a b \<le> 0) xs \<Longrightarrow> sort_cmp cmp xs = xs"
proof (induction xs)
  case Nil show ?case by (simp add: sort_cmp_def)
next
  case (Cons x xs)
  then have a: "sort_cmp cmp xs = xs" by simp
  have "insort_cmp cmp x xs = x # xs" using Cons.prems by (cases xs) auto
  with a show ?case by (simp add: sort_cmp_def)
qed

section \<open>The groups built by the first loop\<close>

lemma group_step_alt:
  "group_step p m = (case conv_key (snd p) of None \<Rightarrow> m | Some c \<Rightarrow> push_member c (fst p) m)"
  by (simp add: group_step_def conv_key_def split: option.splits)

lemma map_of_push_member:
  "map_of (push_member c i m) k =
     (if k = c then Some ((case map_of m c of None \<Rightarrow> [] | Some g \<Rightarrow> g) @ [i]) else map_of m k)"
  by (induction m) auto

lemma keys_push_member:
  "map fst (push_member c i m) = (if c \<in> fst ` set m then map fst m else map fst m @ [c])"
  by (induction m) force+

lemma distinct_keys_push_member:
  "distinct (map fst m) \<Longrightarrow> distinct (map fst (push_member c i m))"
  by (simp add: keys_push_member)

lemma members_Cons:
  "members (p # ps) c = (if conv_key (snd p) = Some c then fst p # members ps c else members ps c)"
  by (simp add: members_def)

lemma fold_group_step:
  "distinct (map fst m) \<Longrightarrow>
   distinct (map fst (fold group_step ps m)) \<and>
   (\<forall>c. map_of (fold group_step ps m) c =
      (if members ps c = [] then map_of m c
       else Some ((case map_of m c of None \<Rightarrow> [] | Some g \<Rightarrow> g) @ members ps c)))"
proof (induction ps arbitrary: m)
  case Nil
  then show ?case by (simp add: members_def)
next
  case (Cons p ps)
  show ?case
  proof (cases "conv_key (snd p)")
    case None
    then have "group_step p m = m" by (simp add: group_step_alt)
    with Cons None show ?thesis by (simp add: members_Cons)
  next
    case (Some k)
    then have gs: "group_step p m = push_member k (fst p) m" by (simp add: group_step_alt)
    have d: "distinct (map fst (push_member k (fst p) m))"
      using Cons.prems by (rule distinct_keys_push_member)
    from Cons.IH[OF d] gs Some show ?thesis
      by (auto simp: members_Cons map_of_push_member split: option.splits)
  qed
qed

lemma members_enumerate:
  "members (enumerate 0 tweets) c = group_of tweets c"
proof (induction tweets rule: rev_induct)
  case Nil show ?case by (simp add: members_def group_of_def)
next
  case (snoc t ts)
  have e: "enumerate 0 (ts @ [t]) = enumerate 0 ts @ [(length ts, t)]"
    by (simp add: enumerate_append_eq)
  have f: "filter (\<lambda>j. conv_key ((ts @ [t]) ! j) = Some c) [0..<length ts]
         = filter (\<lambda>j. conv_key (ts ! j) = Some c) [0..<length ts]"
    by (rule filter_cong) (auto simp: nth_append)
  show ?case using snoc unfolding e
    by (simp add: members_def group_of_def f)
qed

lemma build_threads_map_of:
  "map_of (build_threads tweets) c = (if group_of tweets c = [] then None else Some (group_of tweets c))"
  using fold_group_step[of "[]" "enumerate 0 tweets"]
  by (simp add: build_threads_def members_enumerate)

lemma build_threads_distinct: "distinct (map fst (build_threads tweets))"
  using fold_group_step[of "[]" "enumerate 0 tweets"]
  by (simp add: build_threads_def)

lemma build_threads_groups:
  assumes "g \<in> set (map snd (build_threads tweets))"
  shows "g \<noteq> [] \<and> (\<exists>c. g = group_of tweets c)"
proof -
  from assms obtain c where "(c, g) \<in> set (build_threads tweets)" by auto
  then have "map_of (build_threads tweets) c = Some g"
    using build_threads_distinct by simp
  then show ?thesis by (auto simp: build_threads_map_of split: if_splits)
qed

lemma build_threads_complete:
  assumes "group_of tweets c \<noteq> []"
  shows "group_of tweets c \<in> set (map snd (build_threads tweets))"
proof -
  have "map_of (build_threads tweets) c = Some (group_of tweets c)"
    using assms by (simp add: build_threads_map_of)
  then have "(c, group_of tweets c) \<in> set (build_threads tweets)" by (rule map_of_SomeD)
  then show ?thesis by force
qed

lemma build_threads_distinct_groups: "distinct (map snd (build_threads tweets))"
proof -
  have "inj_on snd (set (build_threads tweets))"
  proof (rule inj_onI)
    fix p q assume p: "p \<in> set (build_threads tweets)" and q: "q \<in> set (build_threads tweets)"
      and e: "snd p = snd q"
    obtain c g where pc: "p = (c, g)" by (cases p)
    obtain c' g' where qc: "q = (c', g')" by (cases q)
    from p pc have mp: "map_of (build_threads tweets) c = Some g"
      using build_threads_distinct by simp
    from q qc have mq: "map_of (build_threads tweets) c' = Some g'"
      using build_threads_distinct by simp
    from mp have g: "g = group_of tweets c" "g \<noteq> []"
      by (auto simp: build_threads_map_of split: if_splits)
    from mq have g': "g' = group_of tweets c'"
      by (auto simp: build_threads_map_of split: if_splits)
    from g obtain j where "j \<in> set (group_of tweets c)"
      by (metis list.set_intros(1) neq_Nil_conv)
    with e pc qc g g' have "j \<in> set (group_of tweets c')" by simp
    with \<open>j \<in> set (group_of tweets c)\<close> have "c = c'" by (auto simp: group_of_def)
    with e pc qc show "p = q" by simp
  qed
  moreover have "distinct (build_threads tweets)"
    using build_threads_distinct by (simp add: distinct_map)
  ultimately show ?thesis by (simp add: distinct_map)
qed

section \<open>What the second loop writes\<close>

lemma frame_refl: "frame a a"
  unfolding frame_def
proof (intro conjI allI impI)
  fix i assume "i < length a"
  have "a ! i = (a ! i)\<lparr>thread_position := thread_position (a ! i)\<rparr>" by simp
  then show "\<exists>p. a ! i = (a ! i)\<lparr>thread_position := p\<rparr>" ..
qed simp

lemma frame_created:
  assumes "frame a b" "i < length a"
  shows "created_at (b ! i) = created_at (a ! i)"
proof -
  from assms obtain p where "b ! i = (a ! i)\<lparr>thread_position := p\<rparr>"
    unfolding frame_def by blast
  then show ?thesis by simp
qed

lemma by_created_frame:
  "frame a b \<Longrightarrow> i < length a \<Longrightarrow> j < length a \<Longrightarrow> by_created b i j = by_created a i j"
  by (simp add: by_created_def frame_created)

lemma assign_positions_length [simp]:
  "length (assign_positions rs k store) = length store"
  by (induction rs arbitrary: k store) auto

lemma assign_positions_other:
  "i \<notin> set rs \<Longrightarrow> assign_positions rs k store ! i = store ! i"
  by (induction rs arbitrary: k store) auto

lemma assign_positions_nth:
  "distinct rs \<Longrightarrow> \<forall>r\<in>set rs. r < length store \<Longrightarrow> j < length rs \<Longrightarrow>
   assign_positions rs k store ! (rs ! j) = (store ! (rs ! j))\<lparr>thread_position := Some (k + j + 1)\<rparr>"
proof (induction rs arbitrary: k store j)
  case Nil
  from Nil(3) have False by simp
  then show ?case ..
next
  case (Cons r rs)
  let ?s = "store[r := (store ! r)\<lparr>thread_position := Some (k + 1)\<rparr>]"
  have r: "r \<notin> set rs" "r < length store" using Cons.prems(1,2) by simp_all
  have step: "assign_positions (r # rs) k store = assign_positions rs (k + 1) ?s" by simp
  show ?case
  proof (cases j)
    case 0
    have "assign_positions rs (k + 1) ?s ! r = ?s ! r"
      using r(1) by (rule assign_positions_other)
    then show ?thesis unfolding step using 0 r(2) by simp
  next
    case (Suc j')
    have a1: "distinct rs" using Cons.prems(1) by simp
    have a2: "\<forall>x\<in>set rs. x < length ?s" using Cons.prems(2) by simp
    have a3: "j' < length rs" using Cons.prems(3) Suc by simp
    have ne: "rs ! j' \<noteq> r" using r(1) a3 by (metis nth_mem)
    have ih: "assign_positions rs (k + 1) ?s ! (rs ! j')
        = (?s ! (rs ! j'))\<lparr>thread_position := Some (k + 1 + j' + 1)\<rparr>"
      using a1 a2 a3 by (rule Cons.IH)
    have "?s ! (rs ! j') = store ! (rs ! j')" using ne by simp
    with ih show ?thesis unfolding step using Suc by simp
  qed
qed

lemma group_of_distinct [simp]: "distinct (group_of tweets c)"
  by (simp add: group_of_def)

lemma group_of_bound: "i \<in> set (group_of tweets c) \<Longrightarrow> i < length tweets"
  by (simp add: group_of_def)

lemma group_of_mem:
  "i \<in> set (group_of tweets c) \<longleftrightarrow> i < length tweets \<and> conv_key (tweets ! i) = Some c"
  by (auto simp: group_of_def)

lemma sorted_group_set [simp]: "set (sorted_group tweets c) = set (group_of tweets c)"
  by (simp add: sorted_group_def)

lemma sorted_group_length [simp]: "length (sorted_group tweets c) = length (group_of tweets c)"
  by (simp add: sorted_group_def)

lemma sorted_group_distinct [simp]: "distinct (sorted_group tweets c)"
  by (simp add: sorted_group_def)

lemma sort_group_frame:
  assumes "frame tweets store"
  shows "sort_cmp (by_created store) (group_of tweets c) = sorted_group tweets c"
  unfolding sorted_group_def
proof (rule sort_cmp_cong)
  fix x y assume "x \<in> set (group_of tweets c)" "y \<in> set (group_of tweets c)"
  then have "x < length tweets" "y < length tweets" by (simp_all add: group_of_mem)
  then show "by_created store x y = by_created tweets x y" by (rule by_created_frame[OF assms])
qed

lemma assign_group_frame:
  assumes f: "frame tweets store"
  shows "frame tweets (assign_group (group_of tweets c) store)"
proof (cases "length (group_of tweets c) \<le> 1")
  case True then show ?thesis using f by (simp add: assign_group_def)
next
  case False
  let ?sg = "sorted_group tweets c"
  have eq: "assign_group (group_of tweets c) store = assign_positions ?sg 0 store"
    using False by (simp add: assign_group_def sort_group_frame[OF f])
  have len: "length store = length tweets" using f by (simp add: frame_def)
  have b: "\<forall>r\<in>set ?sg. r < length store" by (simp add: len group_of_mem)
  show ?thesis unfolding eq frame_def
  proof (intro conjI allI impI)
    show "length (assign_positions ?sg 0 store) = length tweets" by (simp add: len)
  next
    fix i assume i: "i < length tweets"
    from f i obtain p where p: "store ! i = (tweets ! i)\<lparr>thread_position := p\<rparr>"
      unfolding frame_def by blast
    show "\<exists>q. assign_positions ?sg 0 store ! i = (tweets ! i)\<lparr>thread_position := q\<rparr>"
    proof (cases "i \<in> set ?sg")
      case False
      then show ?thesis using p by (auto simp: assign_positions_other)
    next
      case True
      then obtain j where j: "j < length ?sg" "?sg ! j = i" by (metis in_set_conv_nth)
      have "assign_positions ?sg 0 store ! (?sg ! j)
          = (store ! (?sg ! j))\<lparr>thread_position := Some (0 + j + 1)\<rparr>"
        using sorted_group_distinct b j(1) by (rule assign_positions_nth)
      with j p show ?thesis by auto
    qed
  qed
qed

lemma assign_group_other:
  assumes f: "frame tweets store" and i: "i \<notin> set (group_of tweets c)"
  shows "assign_group (group_of tweets c) store ! i = store ! i"
proof (cases "length (group_of tweets c) \<le> 1")
  case True then show ?thesis by (simp add: assign_group_def)
next
  case False
  then show ?thesis using i
    by (simp add: assign_group_def sort_group_frame[OF f] assign_positions_other)
qed

lemma assign_group_small:
  "length g \<le> 1 \<Longrightarrow> assign_group g store = store"
  by (simp add: assign_group_def)

lemma assign_group_big:
  assumes f: "frame tweets store" and big: "2 \<le> length (group_of tweets c)"
    and u: "\<forall>i\<in>set (group_of tweets c). store ! i = tweets ! i"
    and j: "j < length (group_of tweets c)"
  shows "assign_group (group_of tweets c) store ! (sorted_group tweets c ! j)
       = (tweets ! (sorted_group tweets c ! j))\<lparr>thread_position := Some (j + 1)\<rparr>"
proof -
  let ?sg = "sorted_group tweets c"
  have eq: "assign_group (group_of tweets c) store = assign_positions ?sg 0 store"
    using big by (simp add: assign_group_def sort_group_frame[OF f])
  have len: "length store = length tweets" using f by (simp add: frame_def)
  have b: "\<forall>r\<in>set ?sg. r < length store" by (simp add: len group_of_mem)
  have jl: "j < length ?sg" using j by simp
  then have "?sg ! j \<in> set ?sg" by (rule nth_mem)
  then have "store ! (?sg ! j) = tweets ! (?sg ! j)" using u by simp
  moreover have "assign_positions ?sg 0 store ! (?sg ! j)
          = (store ! (?sg ! j))\<lparr>thread_position := Some (0 + j + 1)\<rparr>"
    using sorted_group_distinct b jl by (rule assign_positions_nth)
  ultimately show ?thesis by (simp add: eq)
qed

lemma group_of_disjoint:
  "i \<in> set (group_of tweets c) \<Longrightarrow> i \<in> set (group_of tweets c') \<Longrightarrow> c = c'"
  by (simp add: group_of_mem)

lemma fold_assign:
  assumes "frame tweets store"
    and "distinct gs"
    and "\<forall>g\<in>set gs. \<exists>c. g = group_of tweets c"
    and "\<forall>g\<in>set gs. \<forall>i\<in>set g. store ! i = tweets ! i"
  shows "frame tweets (fold assign_group gs store) \<and>
    (\<forall>i. (\<forall>g\<in>set gs. i \<notin> set g) \<longrightarrow> fold assign_group gs store ! i = store ! i) \<and>
    (\<forall>c. group_of tweets c \<in> set gs \<longrightarrow> 2 \<le> length (group_of tweets c) \<longrightarrow>
       (\<forall>j<length (group_of tweets c).
          fold assign_group gs store ! (sorted_group tweets c ! j)
            = (tweets ! (sorted_group tweets c ! j))\<lparr>thread_position := Some (j + 1)\<rparr>)) \<and>
    (\<forall>c. group_of tweets c \<in> set gs \<longrightarrow> length (group_of tweets c) \<le> 1 \<longrightarrow>
       (\<forall>i\<in>set (group_of tweets c). fold assign_group gs store ! i = tweets ! i))"
  using assms
proof (induction gs arbitrary: store)
  case Nil
  then show ?case by simp
next
  case (Cons g gs)
  from Cons.prems(3) obtain c0 where g: "g = group_of tweets c0" by auto
  let ?s = "assign_group g store"
  let ?out = "fold assign_group gs ?s"
  have f': "frame tweets ?s" unfolding g using Cons.prems(1) by (rule assign_group_frame)
  have d': "distinct gs" and gn: "g \<notin> set gs" using Cons.prems(2) by simp_all
  have g': "\<forall>h\<in>set gs. \<exists>c. h = group_of tweets c" using Cons.prems(3) by simp
  have disj: "i \<notin> set g" if "h \<in> set gs" "i \<in> set h" for h i
  proof
    assume ig: "i \<in> set g"
    from g' that(1) obtain c where h: "h = group_of tweets c" by auto
    from ig that(2) have "c0 = c" unfolding g h by (rule group_of_disjoint)
    with g h that(1) gn show False by simp
  qed
  have other: "?s ! i = store ! i" if "i \<notin> set g" for i
    using Cons.prems(1) that unfolding g by (rule assign_group_other)
  have u': "\<forall>h\<in>set gs. \<forall>i\<in>set h. ?s ! i = tweets ! i"
  proof (intro ballI)
    fix h i assume h: "h \<in> set gs" and i: "i \<in> set h"
    have "?s ! i = store ! i" using disj[OF h i] by (rule other)
    also have "\<dots> = tweets ! i" using Cons.prems(4) h i by simp
    finally show "?s ! i = tweets ! i" .
  qed
  note IH = Cons.IH[OF f' d' g' u']
  have eq: "fold assign_group (g # gs) store = ?out" by simp
  have ug: "\<forall>i\<in>set g. store ! i = tweets ! i" using Cons.prems(4) by simp
  have keep: "?out ! i = ?s ! i" if "i \<in> set g" for i
  proof -
    have "\<forall>h\<in>set gs. i \<notin> set h" using disj that by blast
    with IH show ?thesis by blast
  qed
  show ?case unfolding eq
  proof (intro conjI allI impI ballI)
    show "frame tweets ?out" using IH by blast
  next
    fix i assume a: "\<forall>h\<in>set (g # gs). i \<notin> set h"
    then have "\<forall>h\<in>set gs. i \<notin> set h" and ig: "i \<notin> set g" by simp_all
    with IH have "?out ! i = ?s ! i" by blast
    with other[OF ig] show "?out ! i = store ! i" by simp
  next
    fix c j assume m: "group_of tweets c \<in> set (g # gs)" and big: "2 \<le> length (group_of tweets c)"
      and j: "j < length (group_of tweets c)"
    show "?out ! (sorted_group tweets c ! j)
            = (tweets ! (sorted_group tweets c ! j))\<lparr>thread_position := Some (j + 1)\<rparr>"
    proof (cases "group_of tweets c = g")
      case True
      have "j < length (sorted_group tweets c)" using j by simp
      then have "sorted_group tweets c ! j \<in> set (sorted_group tweets c)" by (rule nth_mem)
      then have "sorted_group tweets c ! j \<in> set g" using True by simp
      then have "?out ! (sorted_group tweets c ! j) = ?s ! (sorted_group tweets c ! j)" by (rule keep)
      also have "\<dots> = (tweets ! (sorted_group tweets c ! j))\<lparr>thread_position := Some (j + 1)\<rparr>"
        unfolding True[symmetric] using Cons.prems(1) big _ j
      proof (rule assign_group_big)
        show "\<forall>i\<in>set (group_of tweets c). store ! i = tweets ! i" using ug True by simp
      qed
      finally show ?thesis .
    next
      case False
      with m have "group_of tweets c \<in> set gs" by simp
      with IH big j show ?thesis by blast
    qed
  next
    fix c i assume m: "group_of tweets c \<in> set (g # gs)" and small: "length (group_of tweets c) \<le> 1"
      and i: "i \<in> set (group_of tweets c)"
    show "?out ! i = tweets ! i"
    proof (cases "group_of tweets c = g")
      case True
      with i have ig: "i \<in> set g" by simp
      then have "?out ! i = ?s ! i" by (rule keep)
      moreover have "?s = store" using small True by (simp add: assign_group_small)
      moreover have "store ! i = tweets ! i" using ug ig by simp
      ultimately show ?thesis by simp
    next
      case False
      with m have "group_of tweets c \<in> set gs" by simp
      with IH small i show ?thesis by blast
    qed
  qed
qed

lemma assign_char:
  shows assign_frame: "frame tweets (assignThreadPositions tweets)"
    and assign_no_conv:
      "i < length tweets \<Longrightarrow> conv_key (tweets ! i) = None \<Longrightarrow>
         assignThreadPositions tweets ! i = tweets ! i"
    and assign_small:
      "length (group_of tweets c) \<le> 1 \<Longrightarrow> i \<in> set (group_of tweets c) \<Longrightarrow>
         assignThreadPositions tweets ! i = tweets ! i"
    and assign_big:
      "2 \<le> length (group_of tweets c) \<Longrightarrow> j < length (group_of tweets c) \<Longrightarrow>
         assignThreadPositions tweets ! (sorted_group tweets c ! j)
           = (tweets ! (sorted_group tweets c ! j))\<lparr>thread_position := Some (j + 1)\<rparr>"
proof -
  let ?gs = "map snd (build_threads tweets)"
  have g: "\<forall>g\<in>set ?gs. \<exists>c. g = group_of tweets c"
    using build_threads_groups by blast
  have u: "\<forall>g\<in>set ?gs. \<forall>i\<in>set g. tweets ! i = tweets ! i" by simp
  note F = fold_assign[OF frame_refl build_threads_distinct_groups g u,
      folded assignThreadPositions_def]
  show "frame tweets (assignThreadPositions tweets)" using F by blast
  {
    assume i: "i < length tweets" and n: "conv_key (tweets ! i) = None"
    have "\<forall>g\<in>set ?gs. i \<notin> set g"
    proof
      fix h assume "h \<in> set ?gs"
      with g obtain c where "h = group_of tweets c" by blast
      with n show "i \<notin> set h" by (simp add: group_of_mem)
    qed
    with F show "assignThreadPositions tweets ! i = tweets ! i" by blast
  }
  {
    assume s: "length (group_of tweets c) \<le> 1" and i: "i \<in> set (group_of tweets c)"
    from i have "group_of tweets c \<noteq> []" by auto
    then have "group_of tweets c \<in> set ?gs" by (rule build_threads_complete)
    with F s i show "assignThreadPositions tweets ! i = tweets ! i" by blast
  }
  {
    assume b: "2 \<le> length (group_of tweets c)" and j: "j < length (group_of tweets c)"
    from b have "group_of tweets c \<noteq> []" by auto
    then have "group_of tweets c \<in> set ?gs" by (rule build_threads_complete)
    with F b j show "assignThreadPositions tweets ! (sorted_group tweets c ! j)
           = (tweets ! (sorted_group tweets c ! j))\<lparr>thread_position := Some (j + 1)\<rparr>" by blast
  }
qed

section \<open>Classification\<close>

lemma find_None_has_ref:
  "List.find (\<lambda>r. ref_type r = ty) (case referenced_tweets tweet of None \<Rightarrow> [] | Some rs \<Rightarrow> rs) = None
     \<longleftrightarrow> \<not> has_ref ty tweet"
  by (auto simp: has_ref_def find_None_iff split: option.splits)

lemma classify_type:
  "tweet_type (classifyTweet tweet a tm um) =
     (if has_ref ''replied_to'' tweet then (if is_self_reply tweet a tm then Thread else Reply)
      else if has_ref ''quoted'' tweet then Quote
      else if note_tweet tweet \<noteq> None then LongForm
      else Original)"
proof (cases "List.find (\<lambda>r. ref_type r = ''replied_to'') (case referenced_tweets tweet of None \<Rightarrow> [] | Some rs \<Rightarrow> rs)")
  case None
  note n1 = None
  then have h1: "\<not> has_ref ''replied_to'' tweet" by (simp add: find_None_has_ref)
  show ?thesis
  proof (cases "List.find (\<lambda>r. ref_type r = ''quoted'') (case referenced_tweets tweet of None \<Rightarrow> [] | Some rs \<Rightarrow> rs)")
    case None
    then have h2: "\<not> has_ref ''quoted'' tweet" by (simp add: find_None_has_ref)
    show ?thesis using n1 None h1 h2 by (simp add: classifyTweet_def Let_def)
  next
    case (Some q)
    then have h2: "has_ref ''quoted'' tweet" using find_None_has_ref[of "''quoted''" tweet] by simp
    show ?thesis using n1 Some h1 h2 by (simp add: classifyTweet_def Let_def)
  qed
next
  case (Some r)
  then have h1: "has_ref ''replied_to'' tweet"
    using find_None_has_ref[of "''replied_to''" tweet] by simp
  show ?thesis using Some h1 by (simp add: classifyTweet_def Let_def is_self_reply_def)
qed

section \<open>Classification and thread positions: the statements\<close>

text \<open>
  C3. Classification is total and the reply reference wins. \<open>classifyTweet\<close> has no
  failing branch on a typed tweet: the kind is decided by the first matching case of
  reply reference, quote reference, long-form note, and otherwise original. A tweet
  whose references hold both a \<open>replied_to\<close> and a \<open>quoted\<close> entry is a thread or a
  reply, never a quote.
\<close>

theorem classifyTweet_total_tiebreak:
  "tweet_type (classifyTweet tweet a tm um) =
     (if has_ref ''replied_to'' tweet then (if is_self_reply tweet a tm then Thread else Reply)
      else if has_ref ''quoted'' tweet then Quote
      else if note_tweet tweet \<noteq> None then LongForm
      else Original) \<and>
   (has_ref ''replied_to'' tweet \<and> has_ref ''quoted'' tweet \<longrightarrow>
      tweet_type (classifyTweet tweet a tm um) \<in> {Thread, Reply} \<and>
      tweet_type (classifyTweet tweet a tm um) \<noteq> Quote)"
proof (intro conjI impI)
  show kind: "tweet_type (classifyTweet tweet a tm um) =
     (if has_ref ''replied_to'' tweet then (if is_self_reply tweet a tm then Thread else Reply)
      else if has_ref ''quoted'' tweet then Quote
      else if note_tweet tweet \<noteq> None then LongForm
      else Original)"
    by (rule classify_type)
  assume both: "has_ref ''replied_to'' tweet \<and> has_ref ''quoted'' tweet"
  then have reply: "tweet_type (classifyTweet tweet a tm um)
      = (if is_self_reply tweet a tm then Thread else Reply)"
    using kind by simp
  show "tweet_type (classifyTweet tweet a tm um) \<in> {Thread, Reply}"
    unfolding reply by simp
  show "tweet_type (classifyTweet tweet a tm um) \<noteq> Quote"
    unfolding reply by simp
qed

theorem classifyTweet_total_tiebreak_witness:
  "has_ref ''replied_to'' both_refs_tweet \<and> has_ref ''quoted'' both_refs_tweet \<and>
   tweet_type (classifyTweet both_refs_tweet ''7'' Map.empty Map.empty) = Thread \<and>
   tweet_type (classifyTweet both_refs_tweet ''8'' Map.empty Map.empty) = Reply"
proof -
  have h: "has_ref ''replied_to'' both_refs_tweet" "has_ref ''quoted'' both_refs_tweet"
    by (simp_all add: has_ref_def both_refs_tweet_def)
  have s: "is_self_reply both_refs_tweet ''7'' Map.empty"
    "\<not> is_self_reply both_refs_tweet ''8'' Map.empty"
    by (simp_all add: is_self_reply_def both_refs_tweet_def truthy_def)
  from classifyTweet_total_tiebreak[of both_refs_tweet "''7''" Map.empty Map.empty]
    classifyTweet_total_tiebreak[of both_refs_tweet "''8''" Map.empty Map.empty] h s
  show ?thesis by simp
qed

lemma cmp_ok_by_created: "cmp_ok (by_created tweets)"
  unfolding cmp_ok_def by_created_def
  using lc_total lc_trans by blast

lemma sorted_group_sorted:
  "sorted_wrt (\<lambda>a b. by_created tweets a b \<le> 0) (sorted_group tweets c)"
  unfolding sorted_group_def using cmp_ok_by_created by (rule sorted_sort_cmp)

lemma position_sorted_group:
  assumes "2 \<le> length (group_of tweets c)" "j < length (group_of tweets c)"
  shows "position (assignThreadPositions tweets) (sorted_group tweets c ! j) = Some (j + 1)"
  unfolding position_def using assign_big[OF assms] by simp

lemma group_positions:
  fixes tweets c
  defines "out \<equiv> assignThreadPositions tweets"
    and "g \<equiv> group_of tweets c"
  assumes big: "2 \<le> length g"
  shows "position out ` set g = Some ` {1..length g}"
    and "inj_on (position out) (set g)"
    and "\<forall>i\<in>set g. \<forall>j\<in>set g. \<forall>p q.
           position out i = Some p \<and> position out j = Some q \<and> p < q \<longrightarrow>
           localeCompare (str_or_empty (created_at (tweets ! i)))
                         (str_or_empty (created_at (tweets ! j))) \<le> 0"
proof -
  let ?sg = "sorted_group tweets c"
  have pos: "position out (?sg ! j) = Some (j + 1)" if "j < length g" for j
    unfolding out_def using big that unfolding g_def by (rule position_sorted_group)
  have len: "length ?sg = length g" by (simp add: g_def)
  have setg: "set g = set ?sg" by (simp add: g_def)
  have idx: "\<exists>j<length g. i = ?sg ! j" if "i \<in> set g" for i
    using that unfolding setg by (metis in_set_conv_nth len)
  show "position out ` set g = Some ` {1..length g}"
  proof (intro equalityI subsetI)
    fix x assume "x \<in> position out ` set g"
    then obtain i where i: "i \<in> set g" "x = position out i" by blast
    from idx[OF i(1)] obtain j where j: "j < length g" "i = ?sg ! j" by blast
    with pos[OF j(1)] i have "x = Some (j + 1)" by simp
    moreover have "j + 1 \<in> {1..length g}" using j by simp
    ultimately show "x \<in> Some ` {1..length g}" by blast
  next
    fix x assume "x \<in> Some ` {1..length g}"
    then obtain k where k: "1 \<le> k" "k \<le> length g" "x = Some k" by auto
    then have j: "k - 1 < length g" by simp
    then have "?sg ! (k - 1) \<in> set g" unfolding setg using len by (metis nth_mem)
    moreover have "position out (?sg ! (k - 1)) = x" using pos[OF j] k by simp
    ultimately show "x \<in> position out ` set g" by blast
  qed
  show "inj_on (position out) (set g)"
  proof (rule inj_onI)
    fix i i' assume a: "i \<in> set g" "i' \<in> set g" "position out i = position out i'"
    from idx[OF a(1)] obtain j where j: "j < length g" "i = ?sg ! j" by blast
    from idx[OF a(2)] obtain j' where j': "j' < length g" "i' = ?sg ! j'" by blast
    from a(3) pos[OF j(1)] pos[OF j'(1)] j j' have "j = j'" by simp
    with j j' show "i = i'" by simp
  qed
  show "\<forall>i\<in>set g. \<forall>j\<in>set g. \<forall>p q.
           position out i = Some p \<and> position out j = Some q \<and> p < q \<longrightarrow>
           localeCompare (str_or_empty (created_at (tweets ! i)))
                         (str_or_empty (created_at (tweets ! j))) \<le> 0"
  proof (intro ballI allI impI)
    fix i j p q
    assume i: "i \<in> set g" and j: "j \<in> set g"
      and pq: "position out i = Some p \<and> position out j = Some q \<and> p < q"
    from idx[OF i] obtain a where a: "a < length g" "i = ?sg ! a" by blast
    from idx[OF j] obtain b where b: "b < length g" "j = ?sg ! b" by blast
    from pq pos[OF a(1)] pos[OF b(1)] a b have "a < b" by simp
    with sorted_group_sorted[of tweets c] b(1) len
    have "by_created tweets (?sg ! a) (?sg ! b) \<le> 0"
      by (simp add: sorted_wrt_iff_nth_less)
    with a b show "localeCompare (str_or_empty (created_at (tweets ! i)))
                              (str_or_empty (created_at (tweets ! j))) \<le> 0"
      by (simp add: by_created_def)
  qed
qed

lemma thread_example_groups:
  "group_of thread_example ''101'' = [0, 2]" "group_of thread_example ''350'' = [1]"
  by code_simp+

lemma thread_example_out:
  "assignThreadPositions thread_example =
     [mk_tweet ''103'' (Some ''2026-01-01T10:00:03.000Z'') (Some ''101'') (Some 2),
      mk_tweet ''102'' (Some ''2026-01-01T10:00:02.000Z'') (Some ''350'') (Some 4),
      mk_tweet ''101'' (Some ''2026-01-01T10:00:01.000Z'') (Some ''101'') (Some 1),
      mk_tweet ''100'' (Some ''2026-01-01T10:00:00.000Z'') None (Some 2)]"
  by code_simp

text \<open>
  C4. Thread positions of a conversation. Let \<open>group_of tweets c\<close> be the items of the
  array whose (non-empty) \<open>conversation_id\<close> is \<open>c\<close>, and \<open>n\<close> their number. After
  \<open>assignThreadPositions\<close>, if \<open>n \<ge> 2\<close> the positions of the group are exactly
  \<open>{1..n}\<close>, each taken once, and they follow ascending \<open>created_at\<close>: an item with a
  smaller position never compares after one with a larger position. If \<open>n = 1\<close> the pass
  leaves the single member as it was, so it assigns no position.
\<close>

theorem thread_positions_correct:
  "(2 \<le> length (group_of tweets c) \<longrightarrow>
      position (assignThreadPositions tweets) ` set (group_of tweets c)
        = Some ` {1..length (group_of tweets c)} \<and>
      inj_on (position (assignThreadPositions tweets)) (set (group_of tweets c)) \<and>
      (\<forall>i\<in>set (group_of tweets c). \<forall>j\<in>set (group_of tweets c). \<forall>p q.
          position (assignThreadPositions tweets) i = Some p \<and>
          position (assignThreadPositions tweets) j = Some q \<and> p < q \<longrightarrow>
          localeCompare (str_or_empty (created_at (tweets ! i)))
                        (str_or_empty (created_at (tweets ! j))) \<le> 0)) \<and>
   (length (group_of tweets c) = 1 \<longrightarrow>
      (\<forall>i\<in>set (group_of tweets c). assignThreadPositions tweets ! i = tweets ! i))"
proof (intro conjI impI)
  assume "length (group_of tweets c) = 1"
  then have s: "length (group_of tweets c) \<le> 1" by simp
  show "\<forall>i\<in>set (group_of tweets c). assignThreadPositions tweets ! i = tweets ! i"
    using assign_small[OF s] by blast
qed (rule group_positions, assumption)+

theorem thread_positions_correct_witness:
  "2 \<le> length (group_of thread_example ''101'') \<and>
   position (assignThreadPositions thread_example) ` set (group_of thread_example ''101'')
     = Some ` {1..length (group_of thread_example ''101'')} \<and>
   position (assignThreadPositions thread_example) 2 = Some 1 \<and>
   position (assignThreadPositions thread_example) 0 = Some 2 \<and>
   length (group_of thread_example ''350'') = 1 \<and>
   assignThreadPositions thread_example ! 1 = thread_example ! 1"
proof -
  have h: "2 \<le> length (group_of thread_example ''101'')"
    "length (group_of thread_example ''350'') = 1" "1 \<in> set (group_of thread_example ''350'')"
    by (simp_all add: thread_example_groups)
  have p: "position (assignThreadPositions thread_example) 2 = Some 1"
    "position (assignThreadPositions thread_example) 0 = Some 2"
    by (simp_all add: position_def thread_example_out mk_tweet_def)
  from thread_positions_correct[of thread_example "''101''"]
    thread_positions_correct[of thread_example "''350''"] h p
  show ?thesis by blast
qed

text \<open>
  C10. The frame of the pass. \<open>assignThreadPositions\<close> keeps the length of the array and
  changes at most the \<open>thread_position\<close> of an item; an item with no conversation id, and
  an item that is the only member of its conversation, is left exactly as it was, so a
  \<open>thread_position\<close> it carried before is still there.
\<close>

theorem assignThreadPositions_frame:
  "length (assignThreadPositions tweets) = length tweets \<and>
   (\<forall>i<length tweets.
      (\<exists>p. assignThreadPositions tweets ! i = (tweets ! i)\<lparr>thread_position := p\<rparr>) \<and>
      (conv_key (tweets ! i) = None \<longrightarrow> assignThreadPositions tweets ! i = tweets ! i) \<and>
      (\<forall>c. conv_key (tweets ! i) = Some c \<and> length (group_of tweets c) = 1 \<longrightarrow>
           assignThreadPositions tweets ! i = tweets ! i))"
proof (intro conjI allI impI)
  show "length (assignThreadPositions tweets) = length tweets"
    using assign_frame[of tweets] by (simp add: frame_def)
next
  fix i assume "i < length tweets"
  then show "\<exists>p. assignThreadPositions tweets ! i = (tweets ! i)\<lparr>thread_position := p\<rparr>"
    using assign_frame[of tweets] unfolding frame_def by blast
next
  fix i assume "i < length tweets" "conv_key (tweets ! i) = None"
  then show "assignThreadPositions tweets ! i = tweets ! i" by (rule assign_no_conv)
next
  fix i c assume i: "i < length tweets"
    and c: "conv_key (tweets ! i) = Some c \<and> length (group_of tweets c) = 1"
  then have "i \<in> set (group_of tweets c)" by (simp add: group_of_mem)
  moreover from c have "length (group_of tweets c) \<le> 1" by simp
  ultimately show "assignThreadPositions tweets ! i = tweets ! i" by (rule assign_small[rotated])
qed

theorem assignThreadPositions_frame_witness:
  "(3::nat) < length thread_example \<and> conv_key (thread_example ! 3) = None \<and>
   thread_position (assignThreadPositions thread_example ! 3) = Some 2 \<and>
   (1::nat) < length thread_example \<and> conv_key (thread_example ! 1) = Some ''350'' \<and>
   length (group_of thread_example ''350'') = 1 \<and>
   thread_position (assignThreadPositions thread_example ! 1) = Some 4 \<and>
   length (assignThreadPositions thread_example) = 4"
proof -
  have l: "length thread_example = 4" by (simp add: thread_example_def)
  have k: "conv_key (thread_example ! 3) = None" "conv_key (thread_example ! 1) = Some ''350''"
    by (simp_all add: thread_example_def mk_tweet_def conv_key_def)
  have t: "thread_position (thread_example ! 3) = Some 2"
    "thread_position (thread_example ! 1) = Some 4"
    by (simp_all add: thread_example_def mk_tweet_def)
  from assignThreadPositions_frame[of thread_example] l k t thread_example_groups(2)
  show ?thesis by simp
qed

section \<open>The map of the merge\<close>

lemma keys_map_set:
  "map fst (map_set k v m) = (if k \<in> fst ` set m then map fst m else map fst m @ [k])"
  by (induction m) force+

lemma distinct_keys_map_set:
  "distinct (map fst m) \<Longrightarrow> distinct (map fst (map_set k v m))"
  by (simp add: keys_map_set)

lemma map_of_map_set: "map_of (map_set k v m) = (map_of m)(k \<mapsto> v)"
  by (induction m) (auto simp: fun_eq_iff)

lemma set_map_set_subset: "set (map_set k v m) \<subseteq> insert (k, v) (set m)"
  by (induction m) (auto split: if_splits)

lemma keyed_map_set: "keyed m \<Longrightarrow> keyed (map_set (tweet_id t) t m)"
  unfolding keyed_def using set_map_set_subset[of "tweet_id t" t m] by fastforce

lemma map_set_fresh: "k \<notin> fst ` set m \<Longrightarrow> map_set k v m = m @ [(k, v)]"
  by (induction m) auto

lemma set_all_Nil [simp]: "set_all [] m = m"
  by (simp add: set_all_def)

lemma set_all_Cons [simp]: "set_all (t # ts) m = set_all ts (map_set (tweet_id t) t m)"
  by (simp add: set_all_def)

lemma upd_all_Nil [simp]: "upd_all [] f = f"
  by (simp add: upd_all_def)

lemma upd_all_Cons [simp]: "upd_all (t # ts) f = upd_all ts (f(tweet_id t \<mapsto> t))"
  by (simp add: upd_all_def)

lemma set_all_props:
  "distinct (map fst m) \<Longrightarrow> keyed m \<Longrightarrow>
     distinct (map fst (set_all ts m)) \<and> keyed (set_all ts m) \<and>
     map_of (set_all ts m) = upd_all ts (map_of m) \<and>
     set (map fst (set_all ts m)) = set (map fst m) \<union> tweet_id ` set ts"
proof (induction ts arbitrary: m)
  case Nil then show ?case by simp
next
  case (Cons t ts)
  have d: "distinct (map fst (map_set (tweet_id t) t m))"
    using Cons.prems(1) by (rule distinct_keys_map_set)
  have k: "keyed (map_set (tweet_id t) t m)" using Cons.prems(2) by (rule keyed_map_set)
  have s: "set (map fst (map_set (tweet_id t) t m)) = insert (tweet_id t) (set (map fst m))"
    by (auto simp: keys_map_set)
  have mo: "map_of (map_set (tweet_id t) t m) = (map_of m)(tweet_id t \<mapsto> t)"
    by (rule map_of_map_set)
  from Cons.IH[OF d k] have ih: "distinct (map fst (set_all ts (map_set (tweet_id t) t m)))"
    "keyed (set_all ts (map_set (tweet_id t) t m))"
    "map_of (set_all ts (map_set (tweet_id t) t m)) = upd_all ts ((map_of m)(tweet_id t \<mapsto> t))"
    "set (map fst (set_all ts (map_set (tweet_id t) t m)))
       = insert (tweet_id t) (set (map fst m)) \<union> tweet_id ` set ts"
    unfolding mo s by blast+
  show ?case unfolding set_all_Cons upd_all_Cons using ih by auto
qed

lemma set_all_keys_same:
  "tweet_id ` set ts \<subseteq> fst ` set m \<Longrightarrow> map fst (set_all ts m) = map fst m"
proof (induction ts arbitrary: m)
  case Nil then show ?case by simp
next
  case (Cons t ts)
  have a: "map fst (map_set (tweet_id t) t m) = map fst m"
    using Cons.prems by (simp add: keys_map_set)
  then have "fst ` set (map_set (tweet_id t) t m) = fst ` set m" by (metis set_map)
  with Cons.prems have "tweet_id ` set ts \<subseteq> fst ` set (map_set (tweet_id t) t m)" by simp
  from Cons.IH[OF this] a show ?case by simp
qed

lemma set_all_fresh:
  "distinct (map tweet_id ts) \<Longrightarrow> tweet_id ` set ts \<inter> fst ` set m = {} \<Longrightarrow>
     set_all ts m = m @ map (\<lambda>t. (tweet_id t, t)) ts"
proof (induction ts arbitrary: m)
  case Nil then show ?case by simp
next
  case (Cons t ts)
  have f: "tweet_id t \<notin> fst ` set m" using Cons.prems(2) by auto
  have m': "map_set (tweet_id t) t m = m @ [(tweet_id t, t)]" using f by (rule map_set_fresh)
  have d: "distinct (map tweet_id ts)" using Cons.prems(1) by simp
  have i: "tweet_id ` set ts \<inter> fst ` set (m @ [(tweet_id t, t)]) = {}"
    using Cons.prems by auto
  from Cons.IH[OF d i] m' show ?case by simp
qed

lemma alist_by_keys:
  "distinct (map fst m) \<Longrightarrow> map snd m = map (\<lambda>k. the (map_of m k)) (map fst m)"
proof (induction m)
  case Nil show ?case by simp
next
  case (Cons p m)
  obtain k v where p: "p = (k, v)" by (cases p)
  from Cons.prems p have nk: "k \<notin> fst ` set m" and d: "distinct (map fst m)" by auto
  have "map (\<lambda>k'. the (map_of (p # m) k')) (map fst m)
      = map (\<lambda>k'. the (map_of m k')) (map fst m)"
  proof (rule map_cong)
    fix x assume "x \<in> set (map fst m)"
    with nk have "x \<noteq> k" by auto
    then show "the (map_of (p # m) x) = the (map_of m x)" using p by simp
  qed simp
  with Cons.IH[OF d] p show ?case by simp
qed

lemma upd_all_in:
  "k \<in> tweet_id ` set ts \<Longrightarrow> upd_all ts f k = upd_all ts g k"
proof (induction ts arbitrary: f g)
  case Nil then show ?case by simp
next
  case (Cons t ts)
  show ?case
  proof (cases "k \<in> tweet_id ` set ts")
    case True
    then show ?thesis using Cons.IH by simp
  next
    case False
    have n: "upd_all ts h k = h k" for h using False
      by (induction ts arbitrary: h) auto
    from False Cons.prems have "k = tweet_id t" by auto
    with n[of "f(tweet_id t \<mapsto> t)"] n[of "g(tweet_id t \<mapsto> t)"]
    show ?thesis by simp
  qed
qed

lemma upd_all_notin:
  "k \<notin> tweet_id ` set ts \<Longrightarrow> upd_all ts f k = f k"
  by (induction ts arbitrary: f) auto

section \<open>Merging is idempotent\<close>

lemma cmp_ok_newest_first: "cmp_ok newest_first"
  unfolding cmp_ok_def newest_first_def using lc_total lc_trans by blast

lemma distinct_map_insort:
  "distinct (map f (insort_cmp cmp x ys)) = (f x \<notin> f ` set ys \<and> distinct (map f ys))"
  by (induction ys) auto

lemma distinct_map_sort: "distinct (map f (sort_cmp cmp xs)) = distinct (map f xs)"
proof (induction xs)
  case Nil show ?case by (simp add: sort_cmp_def)
next
  case (Cons x xs)
  have "sort_cmp cmp (x # xs) = insort_cmp cmp x (sort_cmp cmp xs)" by (simp add: sort_cmp_def)
  with Cons show ?case by (simp add: distinct_map_insort)
qed

lemma frame_nth:
  "frame a b \<Longrightarrow> i < length a \<Longrightarrow> \<exists>p. b ! i = (a ! i)\<lparr>thread_position := p\<rparr>"
  unfolding frame_def by blast

lemma frame_length: "frame a b \<Longrightarrow> length b = length a"
  unfolding frame_def by blast

lemma frame_id:
  assumes "frame a b"
  shows "map tweet_id b = map tweet_id a"
proof (rule nth_equalityI)
  show "length (map tweet_id b) = length (map tweet_id a)" using assms by (simp add: frame_length)
next
  fix i assume "i < length (map tweet_id b)"
  then have i: "i < length a" using assms by (simp add: frame_length)
  from frame_nth[OF assms i] obtain p where "b ! i = (a ! i)\<lparr>thread_position := p\<rparr>" ..
  then have "tweet_id (b ! i) = tweet_id (a ! i)" by simp
  then show "map tweet_id b ! i = map tweet_id a ! i" using i assms by (simp add: frame_length)
qed

lemma frame_conv:
  assumes "frame a b" "i < length a"
  shows "conv_key (b ! i) = conv_key (a ! i)"
proof -
  from frame_nth[OF assms] obtain p where "b ! i = (a ! i)\<lparr>thread_position := p\<rparr>" ..
  then show ?thesis by (simp add: conv_key_def)
qed

lemma frame_group:
  assumes "frame a b"
  shows "group_of b c = group_of a c"
  unfolding group_of_def frame_length[OF assms]
  by (rule filter_cong) (simp_all add: frame_conv[OF assms])

lemma frame_sorted_group:
  assumes "frame a b"
  shows "sorted_group b c = sorted_group a c"
proof -
  have "sorted_group b c = sort_cmp (by_created b) (group_of a c)"
    by (simp add: sorted_group_def frame_group[OF assms])
  also have "\<dots> = sorted_group a c" using assms by (rule sort_group_frame)
  finally show ?thesis .
qed

lemma assign_cong:
  assumes f: "frame a b"
    and u: "\<And>i. i < length a \<Longrightarrow> assignThreadPositions a ! i = a ! i \<Longrightarrow> b ! i = a ! i"
  shows "assignThreadPositions b = assignThreadPositions a"
proof (rule nth_equalityI)
  show "length (assignThreadPositions b) = length (assignThreadPositions a)"
    using assign_frame[of a] assign_frame[of b] f by (simp add: frame_length)
next
  fix i assume "i < length (assignThreadPositions b)"
  then have i: "i < length a" using assign_frame[of b] f by (simp add: frame_length)
  then have ib: "i < length b" using f by (simp add: frame_length)
  show "assignThreadPositions b ! i = assignThreadPositions a ! i"
  proof (cases "conv_key (a ! i)")
    case None
    have 1: "assignThreadPositions a ! i = a ! i" using i None by (rule assign_no_conv)
    have "conv_key (b ! i) = None" using frame_conv[OF f i] None by simp
    with ib have "assignThreadPositions b ! i = b ! i" by (rule assign_no_conv)
    with u[OF i 1] 1 show ?thesis by simp
  next
    case (Some c)
    with i have mem: "i \<in> set (group_of a c)" by (simp add: group_of_mem)
    show ?thesis
    proof (cases "length (group_of a c) \<le> 1")
      case True
      have 1: "assignThreadPositions a ! i = a ! i" using True mem by (rule assign_small)
      have "length (group_of b c) \<le> 1" "i \<in> set (group_of b c)"
        using True mem by (simp_all add: frame_group[OF f])
      then have "assignThreadPositions b ! i = b ! i" by (rule assign_small)
      with u[OF i 1] 1 show ?thesis by simp
    next
      case False
      then have big: "2 \<le> length (group_of a c)" by simp
      from mem have "i \<in> set (sorted_group a c)" by simp
      then obtain j where j: "j < length (sorted_group a c)" "sorted_group a c ! j = i"
        by (metis in_set_conv_nth)
      then have jl: "j < length (group_of a c)" by simp
      have A: "assignThreadPositions a ! i = (a ! i)\<lparr>thread_position := Some (j + 1)\<rparr>"
        using assign_big[OF big jl] j(2) by simp
      have bigb: "2 \<le> length (group_of b c)" "j < length (group_of b c)"
        using big jl by (simp_all add: frame_group[OF f])
      have B: "assignThreadPositions b ! i = (b ! i)\<lparr>thread_position := Some (j + 1)\<rparr>"
        using assign_big[OF bigb] j(2) by (simp add: frame_sorted_group[OF f])
      from frame_nth[OF f i] obtain p where "b ! i = (a ! i)\<lparr>thread_position := p\<rparr>" ..
      with A B show ?thesis by simp
    qed
  qed
qed

lemma map_of_keyed_distinct:
  assumes "distinct (map fst m)" "keyed m" "t \<in> set (map snd m)"
  shows "map_of m (tweet_id t) = Some t"
proof -
  from assms(3) obtain p where p: "p \<in> set m" "snd p = t" by auto
  with assms(2) have "fst p = tweet_id t" unfolding keyed_def by auto
  with p have "(tweet_id t, t) \<in> set m" by (metis prod.collapse)
  with assms(1) show ?thesis by simp
qed

lemma map_of_id_pairs:
  assumes "distinct (map tweet_id ts)" "i < length ts"
  shows "map_of (map (\<lambda>t. (tweet_id t, t)) ts) (tweet_id (ts ! i)) = Some (ts ! i)"
proof -
  have "distinct (map fst (map (\<lambda>t. (tweet_id t, t)) ts))" using assms(1) by (simp add: comp_def)
  moreover have "(tweet_id (ts ! i), ts ! i) \<in> set (map (\<lambda>t. (tweet_id t, t)) ts)"
    using assms(2) by auto
  ultimately show ?thesis by (rule map_of_is_SomeI)
qed

text \<open>
  C2. Merging the same batch twice. For every archive \<open>A\<close> and batch \<open>B\<close>, merging \<open>B\<close>
  into the result of merging \<open>B\<close> into \<open>A\<close> gives that result again: the same items in
  the same order with the same thread positions (equality of the arrays).
\<close>

theorem merge_idempotent:
  "merge_tweets (merge_tweets A B) B = merge_tweets A B"
proof -
  define M0 where "M0 = set_all B (set_all A [])"
  define L1 where "L1 = sort_cmp newest_first (map snd M0)"
  define M where "M = assignThreadPositions L1"
  have mAB: "merge_tweets A B = M"
    by (simp add: merge_tweets_def Let_def M_def L1_def M0_def)
  have e0: "distinct (map fst ([] :: (string \<times> EnrichedTweet) list))" "keyed []"
    by (simp_all add: keyed_def)
  from set_all_props[OF e0, of A]
  have pA: "distinct (map fst (set_all A []))" "keyed (set_all A [])" by blast+
  from set_all_props[OF pA, of B]
  have p0: "distinct (map fst M0)" "keyed M0"
    "map_of M0 = upd_all B (map_of (set_all A []))"
    "tweet_id ` set B \<subseteq> set (map fst M0)"
    unfolding M0_def by blast+
  have ids0: "map tweet_id (map snd M0) = map fst M0"
    using p0(2) by (simp add: keyed_def)
  have dL1: "distinct (map tweet_id L1)"
    unfolding L1_def distinct_map_sort ids0 by (rule p0(1))
  have fr: "frame L1 M" unfolding M_def by (rule assign_frame)
  have lenM: "length M = length L1" using fr by (rule frame_length)
  have idM: "map tweet_id M = map tweet_id L1" using fr by (rule frame_id)
  have dM: "distinct (map tweet_id M)" using dL1 idM by simp
  have sM: "set_all M [] = map (\<lambda>t. (tweet_id t, t)) M"
    using set_all_fresh[OF dM, of "[]"] by simp
  define M2 where "M2 = set_all B (set_all M [])"
  have keysM: "fst ` set (set_all M []) = set (map fst M0)"
  proof -
    have "fst ` set (set_all M []) = set (map tweet_id M)" unfolding sM by force
    also have "\<dots> = set (map tweet_id L1)" by (simp only: idM)
    also have "\<dots> = set (map tweet_id (map snd M0))"
      unfolding L1_def by (simp add: image_image)
    finally show ?thesis by (simp only: ids0)
  qed
  have sub: "tweet_id ` set B \<subseteq> fst ` set (set_all M [])" using p0(4) keysM by simp
  have keys2: "map fst M2 = map tweet_id M"
  proof -
    have "map fst M2 = map fst (set_all M [])"
      unfolding M2_def using sub by (rule set_all_keys_same)
    also have "\<dots> = map tweet_id M" unfolding sM by (simp add: comp_def)
    finally show ?thesis .
  qed
  have pM: "distinct (map fst (set_all M []))" "keyed (set_all M [])"
    unfolding sM using dM by (simp_all add: comp_def keyed_def)
  from set_all_props[OF pM, of B]
  have p2: "distinct (map fst M2)" "map_of M2 = upd_all B (map_of (set_all M []))"
    unfolding M2_def by blast+
  define V where "V = map snd M2"
  have V_eq: "V = map (\<lambda>t. the (map_of M2 (tweet_id t))) M"
    unfolding V_def alist_by_keys[OF p2(1)] keys2 by (simp add: comp_def)
  have lenV: "length V = length L1" unfolding V_eq using lenM by simp
  have nthV: "V ! i = L1 ! i \<or> V ! i = M ! i" if i: "i < length L1" for i
  proof -
    have iM: "i < length M" using i lenM by simp
    let ?k = "tweet_id (L1 ! i)"
    have kM: "tweet_id (M ! i) = ?k"
      using arg_cong[OF idM, of "\<lambda>xs. xs ! i"] i iM by simp
    have Vi: "V ! i = the (map_of M2 ?k)" unfolding V_eq using iM kM by simp
    show ?thesis
    proof (cases "?k \<in> tweet_id ` set B")
      case True
      have "map_of M2 ?k = upd_all B (map_of (set_all A [])) ?k"
        unfolding p2(2) using True by (rule upd_all_in)
      also have "\<dots> = map_of M0 ?k" by (simp only: p0(3))
      also have "\<dots> = Some (L1 ! i)"
      proof (rule map_of_keyed_distinct[OF p0(1,2)])
        have "L1 ! i \<in> set L1" using i by (rule nth_mem)
        then show "L1 ! i \<in> set (map snd M0)" unfolding L1_def by simp
      qed
      finally show ?thesis using Vi by simp
    next
      case False
      have "map_of M2 ?k = map_of (set_all M []) ?k"
        unfolding p2(2) using False by (rule upd_all_notin)
      also have "\<dots> = Some (M ! i)"
        unfolding sM using map_of_id_pairs[OF dM iM] kM by simp
      finally show ?thesis using Vi by simp
    qed
  qed
  have frV: "frame L1 V"
    unfolding frame_def
  proof (intro conjI allI impI)
    show "length V = length L1" by (rule lenV)
  next
    fix i assume i: "i < length L1"
    from nthV[OF i] show "\<exists>p. V ! i = (L1 ! i)\<lparr>thread_position := p\<rparr>"
    proof
      assume "V ! i = L1 ! i"
      then have "V ! i = (L1 ! i)\<lparr>thread_position := thread_position (L1 ! i)\<rparr>" by simp
      then show ?thesis ..
    next
      assume "V ! i = M ! i"
      with frame_nth[OF fr i] show ?thesis by simp
    qed
  qed
  have sortedL1: "sorted_wrt (\<lambda>a b. newest_first a b \<le> 0) L1"
    unfolding L1_def using cmp_ok_newest_first by (rule sorted_sort_cmp)
  have sortedV: "sorted_wrt (\<lambda>a b. newest_first a b \<le> 0) V"
    unfolding sorted_wrt_iff_nth_less
  proof (intro allI impI)
    fix i j assume ij: "i < j" "j < length V"
    then have i: "i < length L1" and j: "j < length L1" using lenV by simp_all
    from sortedL1 ij(1) j have "newest_first (L1 ! i) (L1 ! j) \<le> 0"
      by (simp add: sorted_wrt_iff_nth_less)
    then show "newest_first (V ! i) (V ! j) \<le> 0"
      unfolding newest_first_def frame_created[OF frV i] frame_created[OF frV j] .
  qed
  have sV: "sort_cmp newest_first V = V" using sortedV by (rule sort_cmp_sorted_id)
  have aV: "assignThreadPositions V = assignThreadPositions L1"
  proof (rule assign_cong[OF frV])
    fix i assume i: "i < length L1" and un: "assignThreadPositions L1 ! i = L1 ! i"
    from nthV[OF i] un show "V ! i = L1 ! i" unfolding M_def by auto
  qed
  have "merge_tweets M B = assignThreadPositions (sort_cmp newest_first V)"
    by (simp add: merge_tweets_def Let_def V_def M2_def)
  also have "\<dots> = M" unfolding sV aV M_def ..
  finally show ?thesis unfolding mAB .
qed

section \<open>The loop over the accounts\<close>

lemma sync_user_view_other:
  "uid \<noteq> u_id u \<Longrightarrow> account_view (sync_user u j st) uid = account_view st uid"
  by (simp add: account_view_def sync_user_def Let_def)

lemma sync_user_view_cong:
  "account_view st (u_id u) = account_view st2 (u_id u) \<Longrightarrow>
   account_view (sync_user u j st) (u_id u) = account_view (sync_user u j st2) (u_id u)"
  by (simp add: account_view_def sync_user_def Let_def)

lemma sync_user_counts:
  "errors (sync_user u j st) = errors st" "error_log (sync_user u j st) = error_log st"
  by (simp_all add: sync_user_def Let_def)

lemma sync_user_tweets:
  "map_option ut_tweets (existingData (sync_user u j st) (u_id u))
     = Some (merge_tweets (existing_tweets st (u_id u)) (classified u j))"
  by (simp add: sync_user_def Let_def existing_tweets_def classified_def)

lemma sync_user_cursor:
  "merge_tweets (existing_tweets st (u_id u)) (classified u j) = m # ms \<Longrightarrow> tweet_id m \<noteq> [] \<Longrightarrow>
   sinceIds (sync_user u j st) (u_id u) = Some (tweet_id m)"
  by (simp add: sync_user_def Let_def existing_tweets_def classified_def truthy_def)

lemma thrown_Nil [simp]: "thrown i [] outcome = []"
  by (simp add: thrown_def map_filter_simps)

lemma thrown_Cons:
  "thrown i (u # us) outcome =
     (case outcome i of Threw m \<Rightarrow> [(i + 1, u_username u, m)] | _ \<Rightarrow> []) @ thrown (Suc i) us outcome"
  by (simp add: thrown_def map_filter_simps split: api_outcome.splits)

lemma sync_loop_char:
  assumes "\<forall>p<length us. outcome (i + p) \<noteq> Exited" and "distinct (map u_id us)"
  shows "\<exists>st'. sync_loop i us outcome st = Some st' \<and>
           errors st' = errors st + length (thrown i us outcome) \<and>
           error_log st' = error_log st @ thrown i us outcome \<and>
           (\<forall>uid. uid \<notin> u_id ` set us \<longrightarrow> account_view st' uid = account_view st uid) \<and>
           (\<forall>p<length us. \<forall>j. outcome (i + p) = Returned j \<longrightarrow>
               account_view st' (u_id (us ! p)) = account_view (sync_user (us ! p) j st) (u_id (us ! p))) \<and>
           (\<forall>p<length us. \<forall>m. outcome (i + p) = Threw m \<longrightarrow>
               account_view st' (u_id (us ! p)) = account_view st (u_id (us ! p)))"
  using assms
proof (induction us arbitrary: i st)
  case Nil
  then show ?case by simp
next
  case (Cons u us)
  let ?st1 = "if \<not> truthy (sinceIds st (u_id u)) then st\<lparr>newUsers := newUsers st + 1\<rparr> else st"
  have v1: "account_view ?st1 uid = account_view st uid" for uid
    by (simp add: account_view_def)
  have c1: "errors ?st1 = errors st" "error_log ?st1 = error_log st" by simp_all
  have ne: "outcome i \<noteq> Exited" using Cons.prems(1)[rule_format, of 0] by simp
  have rest: "\<forall>p<length us. outcome (Suc i + p) \<noteq> Exited"
    using Cons.prems(1) by (metis add_Suc_shift length_Cons not_less_eq)
  have d: "distinct (map u_id us)" and nu: "u_id u \<notin> u_id ` set us"
    using Cons.prems(2) by simp_all
  define next_st where "next_st =
    (case outcome i of
       Threw msg \<Rightarrow> ?st1\<lparr>errors := errors ?st1 + 1,
                          error_log := error_log ?st1 @ [(i + 1, u_username u, msg)]\<rparr>
     | Returned json \<Rightarrow> sync_user u json ?st1
     | Exited \<Rightarrow> st)"
  have step: "sync_loop i (u # us) outcome st = sync_loop (Suc i) us outcome next_st"
    using ne by (simp add: next_st_def Let_def split: api_outcome.splits)
  have nerr: "errors next_st = errors st + length (case outcome i of Threw m \<Rightarrow> [(i + 1, u_username u, m)] | _ \<Rightarrow> [])"
    "error_log next_st = error_log st @ (case outcome i of Threw m \<Rightarrow> [(i + 1, u_username u, m)] | _ \<Rightarrow> [])"
    using ne by (simp_all add: next_st_def sync_user_counts split: api_outcome.splits)
  have nview_other: "account_view next_st uid = account_view st uid" if "uid \<noteq> u_id u" for uid
    using that ne v1[of uid]
    by (simp add: next_st_def sync_user_view_other split: api_outcome.splits)
      (simp add: account_view_def)
  have nview_ret: "account_view next_st (u_id u) = account_view (sync_user u j st) (u_id u)"
    if "outcome i = Returned j" for j
    using that by (simp add: next_st_def sync_user_view_cong[OF v1])
  have nview_thr: "account_view next_st (u_id u) = account_view st (u_id u)"
    if "outcome i = Threw m" for m
    using that by (simp add: next_st_def account_view_def)
  from Cons.IH[OF rest d, of next_st] obtain st' where
    L: "sync_loop (Suc i) us outcome next_st = Some st'"
    and E: "errors st' = errors next_st + length (thrown (Suc i) us outcome)"
    and G: "error_log st' = error_log next_st @ thrown (Suc i) us outcome"
    and O: "\<forall>uid. uid \<notin> u_id ` set us \<longrightarrow> account_view st' uid = account_view next_st uid"
    and R: "\<forall>p<length us. \<forall>j. outcome (Suc i + p) = Returned j \<longrightarrow>
               account_view st' (u_id (us ! p)) = account_view (sync_user (us ! p) j next_st) (u_id (us ! p))"
    and T: "\<forall>p<length us. \<forall>m. outcome (Suc i + p) = Threw m \<longrightarrow>
               account_view st' (u_id (us ! p)) = account_view next_st (u_id (us ! p))"
    by blast
  have other_p: "us ! p \<in> set us \<and> u_id (us ! p) \<noteq> u_id u" if "p < length us" for p
    using that nu by (metis image_eqI nth_mem)
  show ?case
  proof (intro exI conjI allI impI)
    show "sync_loop i (u # us) outcome st = Some st'" using step L by simp
    show "errors st' = errors st + length (thrown i (u # us) outcome)"
      using E nerr(1) by (simp add: thrown_Cons)
    show "error_log st' = error_log st @ thrown i (u # us) outcome"
      using G nerr(2) by (simp add: thrown_Cons)
  next
    fix uid assume "uid \<notin> u_id ` set (u # us)"
    then have "uid \<noteq> u_id u" "uid \<notin> u_id ` set us" by simp_all
    with O nview_other show "account_view st' uid = account_view st uid" by simp
  next
    fix p j assume p: "p < length (u # us)" and r: "outcome (i + p) = Returned j"
    show "account_view st' (u_id ((u # us) ! p)) = account_view (sync_user ((u # us) ! p) j st) (u_id ((u # us) ! p))"
    proof (cases p)
      case 0
      have "account_view st' (u_id u) = account_view next_st (u_id u)" using O nu by simp
      with nview_ret[of j] r 0 show ?thesis by simp
    next
      case (Suc q)
      with p have q: "q < length us" by simp
      from r Suc have "outcome (Suc i + q) = Returned j" by simp
      with R q have "account_view st' (u_id (us ! q)) = account_view (sync_user (us ! q) j next_st) (u_id (us ! q))"
        by blast
      also have "\<dots> = account_view (sync_user (us ! q) j st) (u_id (us ! q))"
        by (rule sync_user_view_cong) (rule nview_other, use other_p[OF q] in simp)
      finally show ?thesis using Suc by simp
    qed
  next
    fix p m assume p: "p < length (u # us)" and r: "outcome (i + p) = Threw m"
    show "account_view st' (u_id ((u # us) ! p)) = account_view st (u_id ((u # us) ! p))"
    proof (cases p)
      case 0
      have "account_view st' (u_id u) = account_view next_st (u_id u)" using O nu by simp
      with nview_thr[of m] r 0 show ?thesis by simp
    next
      case (Suc q)
      with p have q: "q < length us" by simp
      from r Suc have "outcome (Suc i + q) = Threw m" by simp
      with T q have "account_view st' (u_id (us ! q)) = account_view next_st (u_id (us ! q))"
        by blast
      also have "\<dots> = account_view st (u_id (us ! q))"
        by (rule nview_other) (use other_p[OF q] in simp)
      finally show ?thesis using Suc by simp
    qed
  qed
qed

lemma thrown_none:
  "\<forall>p<length us. \<exists>j. outcome (i + p) = Returned j \<Longrightarrow> thrown i us outcome = []"
proof (induction us arbitrary: i)
  case Nil show ?case by simp
next
  case (Cons u us)
  from Cons.prems[rule_format, of 0] obtain j where j: "outcome i = Returned j" by auto
  have "\<forall>p<length us. \<exists>j. outcome (Suc i + p) = Returned j"
  proof (intro allI impI)
    fix p assume "p < length us"
    then have "Suc p < length (u # us)" by simp
    from Cons.prems[rule_format, OF this] show "\<exists>j. outcome (Suc i + p) = Returned j" by simp
  qed
  from Cons.IH[OF this] j show ?case by (simp add: thrown_Cons)
qed

lemma thrown_one:
  "k < length us \<Longrightarrow> outcome (i + k) = Threw msg \<Longrightarrow>
   \<forall>p<length us. p \<noteq> k \<longrightarrow> (\<exists>j. outcome (i + p) = Returned j) \<Longrightarrow>
   thrown i us outcome = [(i + k + 1, u_username (us ! k), msg)]"
proof (induction us arbitrary: i k)
  case Nil then show ?case by simp
next
  case (Cons u us)
  show ?case
  proof (cases k)
    case 0
    have "\<forall>p<length us. \<exists>j. outcome (Suc i + p) = Returned j"
    proof (intro allI impI)
      fix p assume "p < length us"
      then have "Suc p < length (u # us)" "Suc p \<noteq> k" using 0 by simp_all
      with Cons.prems(3) show "\<exists>j. outcome (Suc i + p) = Returned j" by fastforce
    qed
    then have "thrown (Suc i) us outcome = []" by (rule thrown_none)
    with Cons.prems(2) 0 show ?thesis by (simp add: thrown_Cons)
  next
    case (Suc k')
    from Cons.prems(3)[rule_format, of 0] Suc obtain j where j: "outcome i = Returned j" by auto
    have a: "k' < length us" using Cons.prems(1) Suc by simp
    have b: "outcome (Suc i + k') = Threw msg" using Cons.prems(2) Suc by simp
    have c: "\<forall>p<length us. p \<noteq> k' \<longrightarrow> (\<exists>j. outcome (Suc i + p) = Returned j)"
    proof (intro allI impI)
      fix p assume "p < length us" "p \<noteq> k'"
      then have "Suc p < length (u # us)" "Suc p \<noteq> k" using Suc by simp_all
      with Cons.prems(3) show "\<exists>j. outcome (Suc i + p) = Returned j" by fastforce
    qed
    from Cons.IH[OF a b c] j Suc show ?thesis by (simp add: thrown_Cons)
  qed
qed

lemma classify_id [simp]: "tweet_id (classifyTweet t a tm um) = tweet_id t"
  by (simp add: classifyTweet_def Let_def case_prod_beta)

lemma classified_ids:
  "map tweet_id (classified u j) = map tweet_id (case data j of None \<Rightarrow> [] | Some ts \<Rightarrow> ts)"
  by (simp add: classified_def comp_def)

lemma merge_ids: "tweet_id ` set (merge_tweets A B) = tweet_id ` set A \<union> tweet_id ` set B"
proof -
  define M0 where "M0 = set_all B (set_all A [])"
  define L1 where "L1 = sort_cmp newest_first (map snd M0)"
  have e0: "distinct (map fst ([] :: (string \<times> EnrichedTweet) list))" "keyed []"
    by (simp_all add: keyed_def)
  from set_all_props[OF e0, of A]
  have pA: "distinct (map fst (set_all A []))" "keyed (set_all A [])"
    "set (map fst (set_all A [])) = tweet_id ` set A" by simp_all
  from set_all_props[OF pA(1,2), of B]
  have p0: "keyed M0" "set (map fst M0) = tweet_id ` set A \<union> tweet_id ` set B"
    unfolding M0_def pA(3) by blast+
  have ids0: "map tweet_id (map snd M0) = map fst M0"
    using p0(1) by (simp add: keyed_def)
  have "merge_tweets A B = assignThreadPositions L1"
    by (simp add: merge_tweets_def Let_def L1_def M0_def)
  then have "map tweet_id (merge_tweets A B) = map tweet_id L1"
    using frame_id[OF assign_frame[of L1]] by simp
  then have "set (map tweet_id (merge_tweets A B)) = set (map tweet_id L1)" by simp
  also have "\<dots> = set (map tweet_id (map snd M0))" unfolding L1_def by (simp add: image_image)
  also have "\<dots> = tweet_id ` set A \<union> tweet_id ` set B" unfolding ids0 by (rule p0(2))
  finally show ?thesis by simp
qed

text \<open>
  One failing account does not stop the run. Let the tracked accounts have pairwise
  different ids, let the call of \<open>apiGet\<close> for account \<open>k\<close> throw and every other call
  return. Then \<open>fetchFollowingTweets\<close> completes; the error count is 1 and the one logged
  line names account \<open>k\<close>, whose archive entry and cursor stay as they were; for every
  other account the archive entry holds the merge of its earlier tweets with its
  classified fetched tweets (all fetched ids are in it) and its cursor is the one its own
  sync step computes: the id of the first merged tweet whenever there is one, which need
  not be the largest merged id.
\<close>

lemma failure_isolated:
  assumes k: "k < length users" and thr: "outcome k = Threw msg"
    and ret: "\<forall>i<length users. i \<noteq> k \<longrightarrow> (\<exists>j. outcome i = Returned j)"
    and dist: "distinct (map u_id users)"
  shows "\<exists>r. fetchFollowingTweets (Some users) since0 prev outcome = Some r \<and>
           errors (final r) = 1 \<and>
           error_log (final r) = [(k + 1, u_username (users ! k), msg)] \<and>
           account_view (final r) (u_id (users ! k))
             = account_view (start_state since0 prev) (u_id (users ! k)) \<and>
           (\<forall>i<length users. \<forall>j. i \<noteq> k \<and> outcome i = Returned j \<longrightarrow>
              map_option ut_tweets (existingData (final r) (u_id (users ! i)))
                = Some (merge_tweets (existing_tweets (start_state since0 prev) (u_id (users ! i)))
                          (classified (users ! i) j)) \<and>
              tweet_id ` set (classified (users ! i) j)
                \<subseteq> tweet_id ` set (merge_tweets
                      (existing_tweets (start_state since0 prev) (u_id (users ! i)))
                      (classified (users ! i) j)) \<and>
              sinceIds (final r) (u_id (users ! i))
                = sinceIds (sync_user (users ! i) j (start_state since0 prev)) (u_id (users ! i)) \<and>
              (\<forall>m ms. merge_tweets (existing_tweets (start_state since0 prev) (u_id (users ! i)))
                          (classified (users ! i) j) = m # ms \<and> tweet_id m \<noteq> [] \<longrightarrow>
                 sinceIds (final r) (u_id (users ! i)) = Some (tweet_id m)))"
proof -
  let ?st0 = "start_state since0 prev"
  have nex: "\<forall>p<length users. outcome (0 + p) \<noteq> Exited"
  proof (intro allI impI)
    fix p assume p: "p < length users"
    show "outcome (0 + p) \<noteq> Exited"
    proof (cases "p = k")
      case True with thr show ?thesis by simp
    next
      case False with ret p obtain j where "outcome p = Returned j" by blast
      then show ?thesis by simp
    qed
  qed
  from sync_loop_char[OF nex dist, of ?st0] obtain st' where
    L: "sync_loop 0 users outcome ?st0 = Some st'"
    and E: "errors st' = errors ?st0 + length (thrown 0 users outcome)"
    and G: "error_log st' = error_log ?st0 @ thrown 0 users outcome"
    and R: "\<forall>p<length users. \<forall>j. outcome (0 + p) = Returned j \<longrightarrow>
               account_view st' (u_id (users ! p)) = account_view (sync_user (users ! p) j ?st0) (u_id (users ! p))"
    and T: "\<forall>p<length users. \<forall>m. outcome (0 + p) = Threw m \<longrightarrow>
               account_view st' (u_id (users ! p)) = account_view ?st0 (u_id (users ! p))"
    by blast
  have th: "thrown 0 users outcome = [(0 + k + 1, u_username (users ! k), msg)]"
    using k by (rule thrown_one) (use thr ret in simp_all)
  define r where "r = \<lparr>final = st',
      results = List.map_filter (\<lambda>u. existingData st' (u_id u)) users,
      total_tweets = sum_list (map (\<lambda>r. length (ut_tweets r))
         (List.map_filter (\<lambda>u. existingData st' (u_id u)) users))\<rparr>"
  have run: "fetchFollowingTweets (Some users) since0 prev outcome = Some r"
    using L by (simp add: fetchFollowingTweets_def start_state_def r_def Let_def)
  have fin: "final r = st'" by (simp add: r_def)
  show ?thesis
  proof (intro exI[of _ r] conjI allI impI)
    show "fetchFollowingTweets (Some users) since0 prev outcome = Some r" by (rule run)
    show "errors (final r) = 1" using E th by (simp add: fin start_state_def)
    show "error_log (final r) = [(k + 1, u_username (users ! k), msg)]"
      using G th by (simp add: fin start_state_def)
    show "account_view (final r) (u_id (users ! k)) = account_view ?st0 (u_id (users ! k))"
      using T k thr by (simp add: fin)
  next
    fix i j assume i: "i < length users" and a: "i \<noteq> k \<and> outcome i = Returned j"
    let ?u = "users ! i"
    let ?merged = "merge_tweets (existing_tweets ?st0 (u_id ?u)) (classified ?u j)"
    from R i a have v: "account_view st' (u_id ?u) = account_view (sync_user ?u j ?st0) (u_id ?u)"
      by simp
    then have ed: "existingData (final r) (u_id ?u) = existingData (sync_user ?u j ?st0) (u_id ?u)"
      and si: "sinceIds (final r) (u_id ?u) = sinceIds (sync_user ?u j ?st0) (u_id ?u)"
      by (simp_all add: account_view_def fin)
    show "map_option ut_tweets (existingData (final r) (u_id ?u)) = Some ?merged"
      unfolding ed by (rule sync_user_tweets)
    show "tweet_id ` set (classified ?u j) \<subseteq> tweet_id ` set ?merged"
      unfolding merge_ids by simp
    show "sinceIds (final r) (u_id ?u) = sinceIds (sync_user ?u j ?st0) (u_id ?u)" by (rule si)
    fix m ms assume "?merged = m # ms \<and> tweet_id m \<noteq> []"
    then show "sinceIds (final r) (u_id ?u) = Some (tweet_id m)"
      unfolding si using sync_user_cursor by blast
  qed
qed

lemma run3_existing:
  "existing_tweets (start_state [''3'' \<mapsto> ''300''] []) uid = []"
  by (simp add: existing_tweets_def start_state_def)

lemma run3_classified:
  "classified acct_a (mk_json ts) = map (\<lambda>t. classifyTweet t ''1'' Map.empty Map.empty) ts"
  "classified acct_c (mk_json ts) = map (\<lambda>t. classifyTweet t ''3'' Map.empty Map.empty) ts"
  by (simp_all add: classified_def mk_json_def buildTweetsMap_def buildUsersMap_def
      acct_a_def acct_c_def)

lemma run3_merged:
  "map tweet_id (merge_tweets [] (map (\<lambda>t. classifyTweet t ''1'' Map.empty Map.empty)
      [mk_raw ''101'' ''2026-01-01T10:00:00.000Z'' ''1''])) = [''101'']"
  "map tweet_id (merge_tweets [] (map (\<lambda>t. classifyTweet t ''3'' Map.empty Map.empty)
      [mk_raw ''301'' ''2026-01-01T11:00:00.000Z'' ''3''])) = [''301'']"
  by code_simp+

lemma failure_isolated_example:
  "(1::nat) < length users3 \<and> outcome3 1 = Threw ''API error 404: Not Found'' \<and>
   outcome3 0 = Returned (mk_json [mk_raw ''101'' ''2026-01-01T10:00:00.000Z'' ''1'']) \<and>
   outcome3 2 = Returned (mk_json [mk_raw ''301'' ''2026-01-01T11:00:00.000Z'' ''3'']) \<and>
   distinct (map u_id users3) \<and>
   (\<exists>r. fetchFollowingTweets (Some users3) [''3'' \<mapsto> ''300''] [] outcome3 = Some r \<and>
        errors (final r) = 1 \<and>
        error_log (final r) = [(2, ''bob'', ''API error 404: Not Found'')] \<and>
        sinceIds (final r) ''1'' = Some ''101'' \<and>
        sinceIds (final r) ''3'' = Some ''301'')"
proof -
  have l: "length users3 = 3" by (simp add: users3_def)
  have n: "users3 ! 0 = acct_a" "users3 ! 1 = acct_b" "users3 ! 2 = acct_c"
    by (simp_all add: users3_def)
  have h1: "(1::nat) < length users3" by (simp add: l)
  have h2: "outcome3 1 = Threw ''API error 404: Not Found''" by (simp add: outcome3_def)
  have h3: "\<forall>i<length users3. i \<noteq> 1 \<longrightarrow> (\<exists>j. outcome3 i = Returned j)"
    by (simp add: outcome3_def)
  have h4: "distinct (map u_id users3)"
    by (simp add: users3_def acct_a_def acct_b_def acct_c_def)
  have o: "outcome3 0 = Returned (mk_json [mk_raw ''101'' ''2026-01-01T10:00:00.000Z'' ''1''])"
    "outcome3 2 = Returned (mk_json [mk_raw ''301'' ''2026-01-01T11:00:00.000Z'' ''3''])"
    by (simp_all add: outcome3_def)
  have u: "u_id acct_a = ''1''" "u_id acct_c = ''3''" "u_username acct_b = ''bob''"
    by (simp_all add: acct_a_def acct_b_def acct_c_def)
  from run3_merged(1) obtain ma where
    ma: "merge_tweets [] (map (\<lambda>t. classifyTweet t ''1'' Map.empty Map.empty)
      [mk_raw ''101'' ''2026-01-01T10:00:00.000Z'' ''1'']) = [ma]" "tweet_id ma = ''101''"
    by (auto simp: map_eq_Cons_conv)
  from run3_merged(2) obtain mc where
    mc: "merge_tweets [] (map (\<lambda>t. classifyTweet t ''3'' Map.empty Map.empty)
      [mk_raw ''301'' ''2026-01-01T11:00:00.000Z'' ''3'']) = [mc]" "tweet_id mc = ''301''"
    by (auto simp: map_eq_Cons_conv)
  from failure_isolated[OF h1 h2 h3 h4, of "[''3'' \<mapsto> ''300'']" "[]"]
  obtain r where r: "fetchFollowingTweets (Some users3) [''3'' \<mapsto> ''300''] [] outcome3 = Some r"
    "errors (final r) = 1"
    "error_log (final r) = [(1 + 1, u_username (users3 ! 1), ''API error 404: Not Found'')]"
    and c: "\<forall>i<length users3. \<forall>j. i \<noteq> 1 \<and> outcome3 i = Returned j \<longrightarrow>
       (\<forall>m ms. merge_tweets (existing_tweets (start_state [''3'' \<mapsto> ''300''] []) (u_id (users3 ! i)))
                          (classified (users3 ! i) j) = m # ms \<and> tweet_id m \<noteq> [] \<longrightarrow>
                 sinceIds (final r) (u_id (users3 ! i)) = Some (tweet_id m))"
    by blast
  from c[rule_format, of 0 _ ma "[]"] o(1) l ma have "sinceIds (final r) ''1'' = Some ''101''"
    by (simp add: n u run3_existing run3_classified)
  moreover from c[rule_format, of 2 _ mc "[]"] o(2) l mc have "sinceIds (final r) ''3'' = Some ''301''"
    by (simp add: n u run3_existing run3_classified)
  moreover have "error_log (final r) = [(2, ''bob'', ''API error 404: Not Found'')]"
    using r(3) by (simp add: users3_def acct_b_def)
  ultimately show ?thesis using h1 h2 h4 o r(1,2) by blast
qed

text \<open>
  C5. When the fetch of one account throws, the run should complete with one error that
  names the failing account, the tweets of the other accounts should be merged into the
  archive, and their cursors should be advanced. The run does complete, the error is
  counted and logged once, and the tweets are merged, but the cursor of a surviving
  account is the id of the first element of its merged array, which is sorted by
  \<open>created_at\<close> with ties kept in insertion order. Of the three accounts \<open>1\<close>, \<open>2\<close>,
  \<open>3\<close> let the fetch of account \<open>2\<close> throw; account \<open>1\<close> has the cursor \<open>100\<close> and the
  tweet \<open>100\<close> in today's file and fetches the tweet \<open>101\<close>, created in the same second;
  account \<open>3\<close> has the cursor \<open>300\<close> and fetches the tweet \<open>301\<close>. After the run the
  archive of account \<open>1\<close> holds \<open>100\<close> and \<open>101\<close> and its cursor is still \<open>100\<close>; the
  cursor of account \<open>3\<close> is \<open>301\<close>.
\<close>

theorem cursor_not_advanced_after_failure:
  "\<exists>r. fetchFollowingTweets (Some users3) since3 prev3 outcome3 = Some r \<and>
        errors (final r) = 1 \<and>
        error_log (final r) = [(2, ''bob'', ''API error 404: Not Found'')] \<and>
        sinceIds (start_state since3 prev3) ''1'' = Some ''100'' \<and>
        sinceIds (final r) ''1'' = Some ''100'' \<and>
        map_option (map tweet_id \<circ> ut_tweets) (existingData (final r) ''1'')
          = Some [''100'', ''101''] \<and>
        sinceIds (final r) ''3'' = Some ''301''"
proof -
  have l: "length users3 = 3" by (simp add: users3_def)
  have n: "users3 ! 0 = acct_a" "users3 ! 1 = acct_b" "users3 ! 2 = acct_c"
    by (simp_all add: users3_def)
  have h1: "(1::nat) < length users3" by (simp add: l)
  have h2: "outcome3 1 = Threw ''API error 404: Not Found''" by (simp add: outcome3_def)
  have h3: "\<forall>i<length users3. i \<noteq> 1 \<longrightarrow> (\<exists>j. outcome3 i = Returned j)"
    by (simp add: outcome3_def)
  have h4: "distinct (map u_id users3)"
    by (simp add: users3_def acct_a_def acct_b_def acct_c_def)
  have o: "outcome3 0 = Returned (mk_json [mk_raw ''101'' ''2026-01-01T10:00:00.000Z'' ''1''])"
    "outcome3 2 = Returned (mk_json [mk_raw ''301'' ''2026-01-01T11:00:00.000Z'' ''3''])"
    by (simp_all add: outcome3_def)
  have u: "u_id acct_a = ''1''" "u_id acct_c = ''3''" "u_username acct_b = ''bob''"
    by (simp_all add: acct_a_def acct_b_def acct_c_def)
  have ea: "existing_tweets (start_state since3 prev3) ''1'' = [archived_a]"
    by (simp add: existing_tweets_def start_state_def prev3_def)
  have ec: "existing_tweets (start_state since3 prev3) ''3'' = []"
    by (simp add: existing_tweets_def start_state_def prev3_def)
  have s0: "sinceIds (start_state since3 prev3) ''1'' = Some ''100''"
    by (simp add: start_state_def since3_def)
  have ia: "map tweet_id (merge_tweets [archived_a]
      (map (\<lambda>t. classifyTweet t ''1'' Map.empty Map.empty)
         [mk_raw ''101'' ''2026-01-01T10:00:00.000Z'' ''1''])) = [''100'', ''101'']"
    by code_simp
  then obtain ma mb where
    ma: "merge_tweets [archived_a] (map (\<lambda>t. classifyTweet t ''1'' Map.empty Map.empty)
      [mk_raw ''101'' ''2026-01-01T10:00:00.000Z'' ''1'']) = [ma, mb]" "tweet_id ma = ''100''"
    by (auto simp: map_eq_Cons_conv)
  from run3_merged(2) obtain mc where
    mc: "merge_tweets [] (map (\<lambda>t. classifyTweet t ''3'' Map.empty Map.empty)
      [mk_raw ''301'' ''2026-01-01T11:00:00.000Z'' ''3'']) = [mc]" "tweet_id mc = ''301''"
    by (auto simp: map_eq_Cons_conv)
  from failure_isolated[OF h1 h2 h3 h4, of since3 prev3]
  obtain r where r: "fetchFollowingTweets (Some users3) since3 prev3 outcome3 = Some r"
    "errors (final r) = 1"
    "error_log (final r) = [(1 + 1, u_username (users3 ! 1), ''API error 404: Not Found'')]"
    and c: "\<forall>i<length users3. \<forall>j. i \<noteq> 1 \<and> outcome3 i = Returned j \<longrightarrow>
              map_option ut_tweets (existingData (final r) (u_id (users3 ! i)))
                = Some (merge_tweets (existing_tweets (start_state since3 prev3) (u_id (users3 ! i)))
                          (classified (users3 ! i) j)) \<and>
       (\<forall>m ms. merge_tweets (existing_tweets (start_state since3 prev3) (u_id (users3 ! i)))
                          (classified (users3 ! i) j) = m # ms \<and> tweet_id m \<noteq> [] \<longrightarrow>
                 sinceIds (final r) (u_id (users3 ! i)) = Some (tweet_id m))"
    by blast
  from c[rule_format, of 0] o(1) l
  have a1: "map_option ut_tweets (existingData (final r) ''1'')
       = Some (merge_tweets [archived_a] (map (\<lambda>t. classifyTweet t ''1'' Map.empty Map.empty)
      [mk_raw ''101'' ''2026-01-01T10:00:00.000Z'' ''1'']))"
    and a2: "\<And>m ms. merge_tweets [archived_a] (map (\<lambda>t. classifyTweet t ''1'' Map.empty Map.empty)
      [mk_raw ''101'' ''2026-01-01T10:00:00.000Z'' ''1'']) = m # ms \<Longrightarrow> tweet_id m \<noteq> [] \<Longrightarrow>
                 sinceIds (final r) ''1'' = Some (tweet_id m)"
    by (simp_all add: n u ea run3_classified)
  from a2[OF ma(1)] ma(2) have c1: "sinceIds (final r) ''1'' = Some ''100''" by simp
  from a1 ia have t1: "map_option (map tweet_id \<circ> ut_tweets) (existingData (final r) ''1'')
          = Some [''100'', ''101'']"
    by (cases "existingData (final r) ''1''") simp_all
  from c[rule_format, of 2] o(2) l
  have "\<And>m ms. merge_tweets [] (map (\<lambda>t. classifyTweet t ''3'' Map.empty Map.empty)
      [mk_raw ''301'' ''2026-01-01T11:00:00.000Z'' ''3'']) = m # ms \<Longrightarrow> tweet_id m \<noteq> [] \<Longrightarrow>
                 sinceIds (final r) ''3'' = Some (tweet_id m)"
    by (simp_all add: n u ec run3_classified)
  from this[OF mc(1)] mc(2) have c3: "sinceIds (final r) ''3'' = Some ''301''" by simp
  have e: "error_log (final r) = [(2, ''bob'', ''API error 404: Not Found'')]"
    using r(3) by (simp add: users3_def acct_b_def)
  show ?thesis
    by (intro exI[of _ r] conjI) (rule r(1) r(2) e s0 c1 t1 c3)+
qed

text \<open>
  The scenario of two syncs of one account: the first fetch gives the tweets 103, 102,
  101 into an empty archive, the second gives 105 and 104.
\<close>

lemma first_sync_example:
  "map tweet_id (merge_tweets []
      (map (\<lambda>t. classifyTweet t ''42'' Map.empty Map.empty)
         [mk_raw ''103'' ''2026-01-01T10:00:03.000Z'' ''42'',
          mk_raw ''102'' ''2026-01-01T10:00:02.000Z'' ''42'',
          mk_raw ''101'' ''2026-01-01T10:00:01.000Z'' ''42''])) = [''103'', ''102'', ''101'']"
  by code_simp

lemma second_sync_example:
  "map tweet_id (merge_tweets
      (map (\<lambda>t. classifyTweet t ''42'' Map.empty Map.empty)
         [mk_raw ''103'' ''2026-01-01T10:00:03.000Z'' ''42'',
          mk_raw ''102'' ''2026-01-01T10:00:02.000Z'' ''42'',
          mk_raw ''101'' ''2026-01-01T10:00:01.000Z'' ''42''])
      (map (\<lambda>t. classifyTweet t ''42'' Map.empty Map.empty)
         [mk_raw ''105'' ''2026-01-01T10:00:05.000Z'' ''42'',
          mk_raw ''104'' ''2026-01-01T10:00:04.000Z'' ''42'']))
   = [''105'', ''104'', ''103'', ''102'', ''101'']"
  by code_simp

lemma tie_merged:
  "map tweet_id (merge_tweets [tie_existing]
      (map (\<lambda>t. classifyTweet t ''42'' Map.empty Map.empty) [tie_fetched])) = [''100'', ''101'']"
  by code_simp

text \<open>
  C1. The cursor after a sync step should be the largest id among the merged items. The
  step stores the id of the first element of the merged array, which is sorted by
  \<open>created_at\<close> with ties kept in insertion order. With the archived tweet \<open>100\<close> and a
  fetched tweet \<open>101\<close> created in the same second, the merged array is \<open>[100, 101]\<close> and
  the stored cursor is \<open>100\<close>, not \<open>101\<close>.
\<close>

theorem cursor_behind_newest_at_tie:
  "sinceIds (sync_user tie_user tie_json tie_state) ''42'' = Some ''100'' \<and>
   map_option (map tweet_id \<circ> ut_tweets) (existingData (sync_user tie_user tie_json tie_state) ''42'')
     = Some [''100'', ''101'']"
  by code_simp

section \<open>Token refresh\<close>

lemma ensure_no_refresh:
  "\<not> needs_refresh c (clock w) \<Longrightarrow> ensureValidToken e c w = (Inr c, w)"
  by (auto simp: ensureValidToken_def needs_refresh_def Let_def)

lemma ensure_refresh:
  "needs_refresh c (clock w) \<Longrightarrow> ensureValidToken e c w = refreshToken e c w"
  by (auto simp: ensureValidToken_def needs_refresh_def Let_def)

lemma refresh_calls:
  "token_calls (snd (refreshToken e c w)) = token_calls w @ [refresh_request_of c]"
  by (simp add: refreshToken_def refresh_request_of_def Let_def case_prod_beta
      split: fetch_result.splits)

lemma refresh_api_calls:
  "api_calls (snd (refreshToken e c w)) = api_calls w"
  "sleeps (snd (refreshToken e c w)) = sleeps w"
  by (simp_all add: refreshToken_def Let_def case_prod_beta split: fetch_result.splits)

lemma refresh_ok:
  assumes "token_server e (length (token_calls w)) = (dt, Response resp)" "ok resp"
  shows "refreshToken e c w =
     (Inr (c\<lparr>access_token := tj_access_token (body_json resp),
             refresh_token := tj_refresh_token (body_json resp),
             token_expires_at := (clock w + int dt) div 1000 + tj_expires_in (body_json resp)\<rparr>),
      w\<lparr>token_calls := token_calls w @ [refresh_request_of c], clock := clock w + int dt,
         config_file := Some (c\<lparr>access_token := tj_access_token (body_json resp),
             refresh_token := tj_refresh_token (body_json resp),
             token_expires_at := (clock w + int dt) div 1000 + tj_expires_in (body_json resp)\<rparr>)\<rparr>)"
  using assms by (simp add: refreshToken_def refresh_request_of_def Let_def)

lemma refresh_not_ok:
  assumes "token_server e (length (token_calls w)) = (dt, Response resp)" "\<not> ok resp"
  shows "refreshToken e c w =
     (Inl (TokenRefreshFailed (status resp) (body_text resp)),
      w\<lparr>token_calls := token_calls w @ [refresh_request_of c], clock := clock w + int dt\<rparr>)"
  using assms by (simp add: refreshToken_def refresh_request_of_def Let_def)

lemma refresh_rejected:
  assumes "token_server e (length (token_calls w)) = (dt, Rejected m)"
  shows "refreshToken e c w =
     (Inl (FetchRejected m),
      w\<lparr>token_calls := token_calls w @ [refresh_request_of c], clock := clock w + int dt\<rparr>)"
  using assms by (simp add: refreshToken_def refresh_request_of_def Let_def)

text \<open>
  C9, as stated, at the config that \<open>auth.ts init\<close> writes (\<open>token_expires_at = 0\<close>, no
  tokens): \<open>now \<ge> expires_at - 300\<close> holds, and \<open>ensureValidToken\<close> returns the config
  unchanged without any request to the token endpoint.
\<close>

theorem no_refresh_at_zero_expiry:
  "clock (world_at cfg_fresh 1700000000000) div 1000 \<ge> token_expires_at cfg_fresh - 300 \<and>
   ensureValidToken env_tokens_ok cfg_fresh (world_at cfg_fresh 1700000000000)
     = (Inr cfg_fresh, world_at cfg_fresh 1700000000000) \<and>
   token_calls (snd (ensureValidToken env_tokens_ok cfg_fresh (world_at cfg_fresh 1700000000000))) = []"
  by (simp add: ensureValidToken_def cfg_fresh_def world_at_def)

text \<open>
  C9, amended. \<open>ensureValidToken\<close> refreshes exactly when \<open>token_expires_at\<close> is not 0 and
  \<open>now \<ge> token_expires_at - 300\<close>: otherwise it returns the config and the world
  unchanged; when it refreshes it sends exactly one request to the token endpoint. If
  that is answered ok, the access token and the refresh token of the returned config are
  the newly issued pair, the expiry is the time of the answer plus \<open>expires_in\<close>, and
  config.json holds the new config in the world the call returns. If it is answered with
  another status, the call fails with \<open>TokenRefreshFailed\<close> (status and body), config.json
  is unchanged and no second request is sent.
\<close>

theorem token_guardian:
  "(\<not> needs_refresh c (clock w) \<longrightarrow> ensureValidToken e c w = (Inr c, w)) \<and>
   (needs_refresh c (clock w) \<longrightarrow>
      token_calls (snd (ensureValidToken e c w)) = token_calls w @ [refresh_request_of c] \<and>
      (\<forall>dt resp. token_server e (length (token_calls w)) = (dt, Response resp) \<and> ok resp \<longrightarrow>
         (\<exists>c' w'. ensureValidToken e c w = (Inr c', w') \<and>
            access_token c' = tj_access_token (body_json resp) \<and>
            refresh_token c' = tj_refresh_token (body_json resp) \<and>
            token_expires_at c' = (clock w + int dt) div 1000 + tj_expires_in (body_json resp) \<and>
            config_file w' = Some c' \<and> token_calls w' = token_calls w @ [refresh_request_of c])) \<and>
      (\<forall>dt resp. token_server e (length (token_calls w)) = (dt, Response resp) \<and> \<not> ok resp \<longrightarrow>
         (\<exists>w'. ensureValidToken e c w
                 = (Inl (TokenRefreshFailed (status resp) (body_text resp)), w') \<and>
               config_file w' = config_file w \<and>
               token_calls w' = token_calls w @ [refresh_request_of c])))"
proof (intro conjI impI allI)
  assume "\<not> needs_refresh c (clock w)"
  then show "ensureValidToken e c w = (Inr c, w)" by (rule ensure_no_refresh)
next
  assume n: "needs_refresh c (clock w)"
  show "token_calls (snd (ensureValidToken e c w)) = token_calls w @ [refresh_request_of c]"
    unfolding ensure_refresh[OF n] by (rule refresh_calls)
next
  fix dt resp
  assume n: "needs_refresh c (clock w)"
    and a: "token_server e (length (token_calls w)) = (dt, Response resp) \<and> ok resp"
  from a have s: "token_server e (length (token_calls w)) = (dt, Response resp)" and o: "ok resp"
    by simp_all
  show "\<exists>c' w'. ensureValidToken e c w = (Inr c', w') \<and>
            access_token c' = tj_access_token (body_json resp) \<and>
            refresh_token c' = tj_refresh_token (body_json resp) \<and>
            token_expires_at c' = (clock w + int dt) div 1000 + tj_expires_in (body_json resp) \<and>
            config_file w' = Some c' \<and> token_calls w' = token_calls w @ [refresh_request_of c]"
    unfolding ensure_refresh[OF n] refresh_ok[OF s o] by simp
next
  fix dt resp
  assume n: "needs_refresh c (clock w)"
    and a: "token_server e (length (token_calls w)) = (dt, Response resp) \<and> \<not> ok resp"
  from a have s: "token_server e (length (token_calls w)) = (dt, Response resp)" and o: "\<not> ok resp"
    by simp_all
  show "\<exists>w'. ensureValidToken e c w
                 = (Inl (TokenRefreshFailed (status resp) (body_text resp)), w') \<and>
               config_file w' = config_file w \<and>
               token_calls w' = token_calls w @ [refresh_request_of c]"
    unfolding ensure_refresh[OF n] refresh_not_ok[OF s o] by simp
qed

theorem token_guardian_witness:
  "needs_refresh cfg_old (clock (world_at cfg_old 900000)) \<and>
   token_server env_tokens_ok (length (token_calls (world_at cfg_old 900000))) = (20, Response token_ok) \<and>
   ok token_ok \<and>
   (\<exists>c' w'. ensureValidToken env_tokens_ok cfg_old (world_at cfg_old 900000) = (Inr c', w') \<and>
      access_token c' = ''new_a'' \<and> refresh_token c' = ''new_r'' \<and>
      token_expires_at c' = 8100 \<and> config_file w' = Some c')"
proof -
  have n: "needs_refresh cfg_old (clock (world_at cfg_old 900000))"
    by (simp add: needs_refresh_def cfg_old_def world_at_def)
  have s: "token_server env_tokens_ok (length (token_calls (world_at cfg_old 900000)))
             = (20, Response token_ok) \<and> ok token_ok"
    by (simp add: env_tokens_ok_def ok_def token_ok_def)
  have c: "clock (world_at cfg_old 900000) = 900000" by (simp add: world_at_def)
  have b: "body_json token_ok
     = \<lparr>tj_access_token = ''new_a'', tj_refresh_token = ''new_r'', tj_expires_in = 7200\<rparr>"
    by (simp add: token_ok_def)
  from token_guardian[of cfg_old "world_at cfg_old 900000" env_tokens_ok] n s
  obtain c' w' where
    "ensureValidToken env_tokens_ok cfg_old (world_at cfg_old 900000) = (Inr c', w')"
    "access_token c' = tj_access_token (body_json token_ok)"
    "refresh_token c' = tj_refresh_token (body_json token_ok)"
    "token_expires_at c' = (clock (world_at cfg_old 900000) + int 20) div 1000
        + tj_expires_in (body_json token_ok)"
    "config_file w' = Some c'"
    by blast
  then show ?thesis using n s by (auto simp: c b)
qed

section \<open>Rate limit and unauthorized answers\<close>

lemma api_fetch_eq:
  "api_server e (length (api_calls w)) = (dt, res) \<Longrightarrow> api_fetch e rq w = (res, sent w rq dt)"
  by (simp add: api_fetch_def sent_def)

lemma sent_simps [simp]:
  "config_file (sent w rq dt) = config_file w" "clock (sent w rq dt) = clock w + int dt"
  "api_calls (sent w rq dt) = api_calls w @ [rq]" "token_calls (sent w rq dt) = token_calls w"
  "sleeps (sent w rq dt) = sleeps w"
  by (simp_all add: sent_def)

lemma slept_simps [simp]:
  "config_file (slept w t) = config_file w" "clock (slept w t) = clock w + t"
  "api_calls (slept w t) = api_calls w" "token_calls (slept w t) = token_calls w"
  "sleeps (slept w t) = sleeps w @ [t]"
  by (simp_all add: slept_def)

lemma waitMs_bounds: "1000 \<le> waitMs r now \<and> waitMs r now \<le> 900000"
  by (simp add: waitMs_def Let_def)

lemma waitMs_exact:
  "1000 \<le> s * 1000 - now \<Longrightarrow> s * 1000 - now \<le> 900000 \<Longrightarrow> now + waitMs (Some s) now = s * 1000"
  by (simp add: waitMs_def Let_def)

lemma ensure_config:
  assumes "config_file w = Some c0" "ensureValidToken e c0 w = (Inr c, w1)"
  shows "config_file w1 = Some c"
proof (cases "needs_refresh c0 (clock w)")
  case False
  with assms show ?thesis by (simp add: ensure_no_refresh)
next
  case True
  obtain dt res where s: "token_server e (length (token_calls w)) = (dt, res)"
    by (cases "token_server e (length (token_calls w))")
  show ?thesis
  proof (cases res)
    case (Rejected m)
    with assms(2) True s show ?thesis by (simp add: ensure_refresh refresh_rejected)
  next
    case (Response resp)
    show ?thesis
    proof (cases "ok resp")
      case True
      from assms(2) \<open>needs_refresh c0 (clock w)\<close> s Response True show ?thesis
        by (auto simp: ensure_refresh refresh_ok)
    next
      case False
      from assms(2) \<open>needs_refresh c0 (clock w)\<close> s Response False show ?thesis
        by (simp add: ensure_refresh refresh_not_ok)
    qed
  qed
qed

lemma ensure_calls:
  "api_calls (snd (ensureValidToken e c w)) = api_calls w"
  "sleeps (snd (ensureValidToken e c w)) = sleeps w"
proof -
  show "api_calls (snd (ensureValidToken e c w)) = api_calls w"
    by (cases "needs_refresh c (clock w)")
      (simp_all add: ensure_refresh ensure_no_refresh refresh_api_calls)
  show "sleeps (snd (ensureValidToken e c w)) = sleeps w"
    by (cases "needs_refresh c (clock w)")
      (simp_all add: ensure_refresh ensure_no_refresh refresh_api_calls)
qed

lemma apiGet_429:
  assumes "config_file w = Some c0" "ensureValidToken e c0 w = (Inr c, w1)"
    "api_server e (length (api_calls w1)) = (dt, Response r)" "status r = 429"
  shows "apiGet (Suc fuel) e path params w =
     apiGet fuel e path params
       (slept (sent w1 (get_request path params (access_token c)) dt)
          (waitMs (rate_limit_reset r) (clock w1 + int dt)))"
  using assms(1,2,4) api_fetch_eq[OF assms(3), of "get_request path params (access_token c)"]
  by (simp add: get_request_def Let_def slept_def)

lemma apiGet_401:
  assumes "config_file w = Some c0" "ensureValidToken e c0 w = (Inr c, w1)"
    "api_server e (length (api_calls w1)) = (dt, Response r)" "status r = 401"
  shows "apiGet (Suc fuel) e path params w =
     Some (retry_after_401 e c (get_request path params (access_token c))
             (sent w1 (get_request path params (access_token c)) dt))"
  using assms(1,2,4) api_fetch_eq[OF assms(3), of "get_request path params (access_token c)"]
  by (simp add: get_request_def Let_def)

lemma apiGet_ok:
  assumes "config_file w = Some c0" "ensureValidToken e c0 w = (Inr c, w1)"
    "api_server e (length (api_calls w1)) = (dt, Response r)" "ok r"
  shows "apiGet (Suc fuel) e path params w =
     Some (Inr (body_json r), sent w1 (get_request path params (access_token c)) dt)"
proof -
  from assms(4) have "status r \<noteq> 429" "status r \<noteq> 401" by (auto simp: ok_def)
  with assms(1,2,4) api_fetch_eq[OF assms(3), of "get_request path params (access_token c)"]
  show ?thesis by (simp add: get_request_def Let_def)
qed

lemma apiPost_401:
  assumes "config_file w = Some c0" "ensureValidToken e c0 w = (Inr c, w1)"
    "api_server e (length (api_calls w1)) = (dt, Response r)" "status r = 401"
  shows "apiPost e path body w =
     retry_after_401 e c (post_request path body (access_token c))
             (sent w1 (post_request path body (access_token c)) dt)"
  using assms(1,2,4) api_fetch_eq[OF assms(3), of "post_request path body (access_token c)"]
  by (simp add: apiPost_def post_request_def Let_def)

lemma retry_after_401_once: "retried_once e c rq w2 (retry_after_401 e c rq w2)"
proof -
  obtain dt2 tres where s: "token_server e (length (token_calls w2)) = (dt2, tres)"
    by (cases "token_server e (length (token_calls w2))")
  show ?thesis
  proof (cases tres)
    case (Rejected m)
    with s show ?thesis
      by (simp add: retried_once_def retry_after_401_def refresh_rejected)
  next
    case (Response tr)
    show ?thesis
    proof (cases "ok tr")
      case False
      with s Response show ?thesis
        by (simp add: retried_once_def retry_after_401_def refresh_not_ok)
    next
      case True
      let ?c' = "c\<lparr>access_token := tj_access_token (body_json tr),
             refresh_token := tj_refresh_token (body_json tr),
             token_expires_at := (clock w2 + int dt2) div 1000 + tj_expires_in (body_json tr)\<rparr>"
      let ?w3 = "w2\<lparr>token_calls := token_calls w2 @ [refresh_request_of c],
         clock := clock w2 + int dt2, config_file := Some ?c'\<rparr>"
      have rf: "refreshToken e c w2 = (Inr ?c', ?w3)"
        using s Response True by (simp add: refresh_ok)
      obtain dt3 ares where a: "api_server e (length (api_calls ?w3)) = (dt3, ares)"
        by (cases "api_server e (length (api_calls ?w3))")
      have f: "api_fetch e (rq\<lparr>req_bearer := tj_access_token (body_json tr)\<rparr>) ?w3
                 = (ares, sent ?w3 (rq\<lparr>req_bearer := tj_access_token (body_json tr)\<rparr>) dt3)"
        using a by (rule api_fetch_eq)
      have a': "api_server e (length (api_calls w2)) = (dt3, ares)" using a by simp
      show ?thesis
      proof (cases ares)
        case (Rejected m)
        then show ?thesis using s Response True a'
          by (simp add: retried_once_def retry_after_401_def rf f)
      next
        case R2: (Response rr)
        then show ?thesis using s Response True a'
          by (simp add: retried_once_def retry_after_401_def rf f)
      qed
    qed
  qed
qed

text \<open>
  C8. A request answered with 401, in \<open>apiGet\<close> and in \<open>apiPost\<close>. Let the config be
  present, the token check pass and the request be answered with status 401. Then the
  call returns (for \<open>apiGet\<close> with any fuel, it makes no call of itself) with an outcome
  that satisfies \<open>retried_once\<close>: a refresh is forced, the request is sent once more with
  the new token, a retried answer that is not ok (a second 401 or any other status) is an
  error carrying its status and body, and nothing is sent after it.
\<close>

theorem unauthorized_retry_once:
  assumes "config_file w = Some c0" and "ensureValidToken e c0 w = (Inr c, w1)"
    and "api_server e (length (api_calls w1)) = (dt, Response r)" and "status r = 401"
  shows "(\<exists>out. apiGet (Suc fuel) e path params w = Some out \<and>
            retried_once e c (get_request path params (access_token c))
              (sent w1 (get_request path params (access_token c)) dt) out) \<and>
         retried_once e c (post_request path body (access_token c))
           (sent w1 (post_request path body (access_token c)) dt) (apiPost e path body w)"
  unfolding apiGet_401[OF assms] apiPost_401[OF assms]
  using retry_after_401_once by blast

text \<open>
  C7. A GET answered with 429. Let the config be present, the token check pass (with or
  without a refresh) and the request be answered with status 429 after \<open>dt\<close> ms. Then
  the sleep is between 1000 and 900000 ms: it is the time left until the reset time of
  the header, raised to 1000 when less is left and cut to 900000 when more is, so that it
  ends at the reset time when that is between 1 second and 15 minutes ahead; and
  \<open>apiGet\<close> then is \<open>apiGet\<close> called again with the same path and parameters. In particular, if the
  token check of that second call passes and the next answer is ok, the call returns that
  answer's JSON, having sent the request exactly twice and slept once.
\<close>

theorem apiGet_rate_limit_retry:
  assumes cf: "config_file w = Some c0" and tk: "ensureValidToken e c0 w = (Inr c, w1)"
    and sv: "api_server e (length (api_calls w1)) = (dt, Response r)" and st: "status r = 429"
  shows "1000 \<le> waitMs (rate_limit_reset r) (clock w1 + int dt) \<and>
         waitMs (rate_limit_reset r) (clock w1 + int dt) \<le> 900000 \<and>
         (\<forall>s. rate_limit_reset r = Some s \<longrightarrow>
               waitMs (rate_limit_reset r) (clock w1 + int dt) =
                 (if s * 1000 - (clock w1 + int dt) < 1000 then 1000
                  else if 900000 < s * 1000 - (clock w1 + int dt) then 900000
                  else s * 1000 - (clock w1 + int dt))) \<and>
         (\<forall>s. rate_limit_reset r = Some s \<and> 1000 \<le> s * 1000 - (clock w1 + int dt) \<and>
               s * 1000 - (clock w1 + int dt) \<le> 900000 \<longrightarrow>
               clock w1 + int dt + waitMs (rate_limit_reset r) (clock w1 + int dt) = s * 1000) \<and>
         apiGet (Suc fuel) e path params w =
           apiGet fuel e path params
             (slept (sent w1 (get_request path params (access_token c)) dt)
                (waitMs (rate_limit_reset r) (clock w1 + int dt))) \<and>
         (\<forall>c' w3 dt' r'.
            ensureValidToken e c
              (slept (sent w1 (get_request path params (access_token c)) dt)
                 (waitMs (rate_limit_reset r) (clock w1 + int dt))) = (Inr c', w3) \<and>
            api_server e (Suc (length (api_calls w1))) = (dt', Response r') \<and> ok r' \<longrightarrow>
            (\<exists>w'. apiGet (Suc (Suc fuel)) e path params w = Some (Inr (body_json r'), w') \<and>
                  api_calls w' = api_calls w1 @ [get_request path params (access_token c),
                                                get_request path params (access_token c')] \<and>
                  sleeps w' = sleeps w1 @ [waitMs (rate_limit_reset r) (clock w1 + int dt)]))"
proof (intro conjI allI impI)
  let ?rq = "get_request path params (access_token c)"
  let ?wait = "waitMs (rate_limit_reset r) (clock w1 + int dt)"
  let ?w3 = "slept (sent w1 ?rq dt) ?wait"
  show "1000 \<le> ?wait" "?wait \<le> 900000" using waitMs_bounds by blast+
  show step: "apiGet (Suc fuel) e path params w = apiGet fuel e path params ?w3" for fuel
    using cf tk sv st by (rule apiGet_429)
  {
    fix s assume "rate_limit_reset r = Some s"
    then show "?wait = (if s * 1000 - (clock w1 + int dt) < 1000 then 1000
                  else if 900000 < s * 1000 - (clock w1 + int dt) then 900000
                  else s * 1000 - (clock w1 + int dt))"
      by (simp add: waitMs_def Let_def)
  }
  {
    fix s assume "rate_limit_reset r = Some s \<and> 1000 \<le> s * 1000 - (clock w1 + int dt) \<and>
               s * 1000 - (clock w1 + int dt) \<le> 900000"
    then show "clock w1 + int dt + ?wait = s * 1000" using waitMs_exact by simp
  }
  {
    fix c' w3 dt' r'
    assume a: "ensureValidToken e c ?w3 = (Inr c', w3) \<and>
               api_server e (Suc (length (api_calls w1))) = (dt', Response r') \<and> ok r'"
    let ?rq' = "get_request path params (access_token c')"
    have c3: "config_file ?w3 = Some c" using ensure_config[OF cf tk] by simp
    have t3: "ensureValidToken e c ?w3 = (Inr c', w3)" using a by simp
    have k3: "api_calls w3 = api_calls ?w3" "sleeps w3 = sleeps ?w3"
      using ensure_calls[of e c ?w3] unfolding t3 by simp_all
    have s3: "api_server e (length (api_calls w3)) = (dt', Response r')"
      using a unfolding k3 by simp
    have "apiGet (Suc fuel) e path params ?w3 = Some (Inr (body_json r'), sent w3 ?rq' dt')"
      using c3 t3 s3 by (rule apiGet_ok) (use a in simp)
    then have r: "apiGet (Suc (Suc fuel)) e path params w
        = Some (Inr (body_json r'), sent w3 ?rq' dt')"
      using step[of "Suc fuel"] by simp
    have "api_calls (sent w3 ?rq' dt') = api_calls w1 @ [?rq, ?rq']"
      "sleeps (sent w3 ?rq' dt') = sleeps w1 @ [?wait]"
      by (simp_all add: k3)
    with r show "\<exists>w'. apiGet (Suc (Suc fuel)) e path params w = Some (Inr (body_json r'), w') \<and>
                  api_calls w' = api_calls w1 @ [?rq, ?rq'] \<and> sleeps w' = sleeps w1 @ [?wait]"
      by blast
  }
qed

lemma w_now_simps:
  "config_file w_now = Some cfg_valid" "clock w_now = 1700000000000" "api_calls w_now = []"
  "token_calls w_now = []" "sleeps w_now = []"
  by (simp_all add: w_now_def world_at_def)

lemma w_now_token: "ensureValidToken e cfg_valid w_now = (Inr cfg_valid, w_now)"
  by (rule ensure_no_refresh) (simp add: needs_refresh_def cfg_valid_def w_now_simps)

theorem apiGet_rate_limit_retry_witness:
  "config_file w_now = Some cfg_valid \<and>
   ensureValidToken env_429 cfg_valid w_now = (Inr cfg_valid, w_now) \<and>
   api_server env_429 (length (api_calls w_now)) = (100, Response resp_429) \<and>
   status resp_429 = 429 \<and>
   waitMs (rate_limit_reset resp_429) (clock w_now + int 100) = 59900 \<and>
   api_server env_429 (Suc (length (api_calls w_now))) = (80, Response resp_200) \<and> ok resp_200 \<and>
   (\<exists>w'. apiGet (Suc (Suc 0)) env_429 ''/users/42/tweets'' [] w_now = Some (Inr json_empty, w') \<and>
         length (api_calls w') = 2 \<and> sleeps w' = [59900])"
proof -
  let ?rq = "get_request ''/users/42/tweets'' [] (access_token cfg_valid)"
  let ?w3 = "slept (sent w_now ?rq 100) (waitMs (rate_limit_reset resp_429) (clock w_now + int 100))"
  have h3: "api_server env_429 (length (api_calls w_now)) = (100, Response resp_429)"
    by (simp add: env_429_def w_now_simps)
  have h4: "status resp_429 = 429" by (simp add: resp_429_def)
  have wt: "waitMs (rate_limit_reset resp_429) (clock w_now + int 100) = 59900"
    by (simp add: waitMs_def resp_429_def w_now_simps)
  have wt': "waitMs (rate_limit_reset resp_429) 1700000000100 = 59900"
    by (simp add: waitMs_def resp_429_def)
  have t3: "ensureValidToken env_429 cfg_valid ?w3 = (Inr cfg_valid, ?w3)"
    by (rule ensure_no_refresh) (simp add: needs_refresh_def cfg_valid_def w_now_simps wt')
  have s2: "api_server env_429 (Suc (length (api_calls w_now))) = (80, Response resp_200)"
    by (simp add: env_429_def w_now_simps)
  have o2: "ok resp_200" by (simp add: ok_def resp_200_def)
  have b2: "body_json resp_200 = json_empty" by (simp add: resp_200_def)
  from apiGet_rate_limit_retry[OF w_now_simps(1) w_now_token h3 h4, of 0 "''/users/42/tweets''" "[]"]
  have "\<forall>c' w3 dt' r'.
            ensureValidToken env_429 cfg_valid ?w3 = (Inr c', w3) \<and>
            api_server env_429 (Suc (length (api_calls w_now))) = (dt', Response r') \<and> ok r' \<longrightarrow>
            (\<exists>w'. apiGet (Suc (Suc 0)) env_429 ''/users/42/tweets'' [] w_now = Some (Inr (body_json r'), w') \<and>
                  api_calls w' = api_calls w_now @ [?rq, get_request ''/users/42/tweets'' [] (access_token c')] \<and>
                  sleeps w' = sleeps w_now @ [waitMs (rate_limit_reset resp_429) (clock w_now + int 100)])"
    by blast
  with t3 s2 o2 obtain w' where
    w': "apiGet (Suc (Suc 0)) env_429 ''/users/42/tweets'' [] w_now = Some (Inr (body_json resp_200), w')"
    "api_calls w' = api_calls w_now @ [?rq, ?rq]"
    "sleeps w' = sleeps w_now @ [waitMs (rate_limit_reset resp_429) (clock w_now + int 100)]"
    by blast
  have r1: "apiGet (Suc (Suc 0)) env_429 ''/users/42/tweets'' [] w_now = Some (Inr json_empty, w')"
    using w'(1) unfolding b2 .
  have r2: "length (api_calls w') = 2" unfolding w'(2) by (simp add: w_now_simps)
  have r3: "sleeps w' = [59900]" unfolding w'(3) wt by (simp add: w_now_simps)
  have "\<exists>w'. apiGet (Suc (Suc 0)) env_429 ''/users/42/tweets'' [] w_now = Some (Inr json_empty, w') \<and>
         length (api_calls w') = 2 \<and> sleeps w' = [59900]"
    by (intro exI[of _ w'] conjI) (rule r1 r2 r3)+
  with w_now_simps(1) w_now_token h3 h4 wt s2 o2 show ?thesis by (intro conjI)
qed

theorem unauthorized_retry_once_witness:
  "config_file w_now = Some cfg_valid \<and>
   ensureValidToken env_401 cfg_valid w_now = (Inr cfg_valid, w_now) \<and>
   api_server env_401 (length (api_calls w_now)) = (30, Response resp_401) \<and>
   status resp_401 = 401 \<and>
   (\<exists>w'. apiGet (Suc 0) env_401 ''/users/42/bookmarks'' [] w_now
            = Some (Inl (ApiError 401 ''Unauthorized''), w') \<and>
         length (api_calls w') = 2 \<and> length (token_calls w') = 1) \<and>
   fst (apiPost env_401 ''/users/42/bookmarks'' [] w_now) = Inl (ApiError 401 ''Unauthorized'') \<and>
   length (api_calls (snd (apiPost env_401 ''/users/42/bookmarks'' [] w_now))) = 2"
proof -
  have h3: "api_server env_401 (length (api_calls w_now)) = (30, Response resp_401)"
    by (simp add: env_401_def)
  have h4: "status resp_401 = 401" by (simp add: resp_401_def)
  have t: "token_server env_401 n = (20, Response token_ok)" "ok token_ok" for n
    by (simp_all add: env_401_def ok_def token_ok_def)
  have a: "api_server env_401 n = (30, Response resp_401)" "\<not> ok resp_401" for n
    by (simp_all add: env_401_def ok_def resp_401_def)
  have r: "status resp_401 = 401" "body_text resp_401 = ''Unauthorized''"
    by (simp_all add: resp_401_def)
  from unauthorized_retry_once[OF w_now_simps(1) w_now_token h3 h4,
      where fuel = 0 and path = "''/users/42/bookmarks''" and params = "[]" and body = "[]"]
  obtain out where o: "apiGet (Suc 0) env_401 ''/users/42/bookmarks'' [] w_now = Some out"
    "retried_once env_401 cfg_valid (get_request ''/users/42/bookmarks'' [] (access_token cfg_valid))
       (sent w_now (get_request ''/users/42/bookmarks'' [] (access_token cfg_valid)) 30) out"
    and p: "retried_once env_401 cfg_valid (post_request ''/users/42/bookmarks'' [] (access_token cfg_valid))
       (sent w_now (post_request ''/users/42/bookmarks'' [] (access_token cfg_valid)) 30)
       (apiPost env_401 ''/users/42/bookmarks'' [] w_now)"
    by blast
  from o(2) t a have og: "fst out = Inl (ApiError 401 ''Unauthorized'')"
    "length (api_calls (snd out)) = 2" "length (token_calls (snd out)) = 1"
    unfolding retried_once_def by (simp_all add: w_now_simps r)
  from p t a have pg: "fst (apiPost env_401 ''/users/42/bookmarks'' [] w_now) = Inl (ApiError 401 ''Unauthorized'')"
    "length (api_calls (snd (apiPost env_401 ''/users/42/bookmarks'' [] w_now))) = 2"
    unfolding retried_once_def by (simp_all add: w_now_simps r)
  obtain res w' where out: "out = (res, w')" by (cases out)
  from o(1) og out have "apiGet (Suc 0) env_401 ''/users/42/bookmarks'' [] w_now
            = Some (Inl (ApiError 401 ''Unauthorized''), w') \<and>
         length (api_calls w') = 2 \<and> length (token_calls w') = 1"
    by (simp del: apiGet.simps)
  then show ?thesis using w_now_simps(1) w_now_token h3 h4 pg by blast
qed

section \<open>Bookmark paging\<close>





end
